theory Spec2Isabelle
  imports Complex_Main "HOL-Library.Word"
begin

section \<open>Python and numpy primitives used by the notebook\<close>

text \<open>
  The notebook \<^verbatim>\<open>MSTC_RNN_1_TF1Py3.ipynb\<close> defines \<^verbatim>\<open>gen_data\<close>, \<^verbatim>\<open>gen_batch\<close>,
  \<^verbatim>\<open>gen_epochs\<close> and \<^verbatim>\<open>train_network\<close>; \<^verbatim>\<open>gen_epochs\<close> only calls \<^verbatim>\<open>gen_batch\<close> on
  a fresh \<^verbatim>\<open>gen_data()\<close> for each epoch. Exceptions are values: a function that can
  raise returns \<open>py_error + 'a\<close>, with \<open>Inl\<close> for the exception.
\<close>

datatype py_error = IndexError | ValueError | ZeroDivisionError

text \<open>
  \<^verbatim>\<open>X[k]\<close> on a one-dimensional numpy array (or a Python list) with an integer \<open>k\<close>:
  a negative index counts from the end, and an index outside \<open>[-n, n)\<close> raises
  \<^verbatim>\<open>IndexError\<close>.
\<close>

definition np_get :: "'a list \<Rightarrow> int \<Rightarrow> py_error + 'a" where
  "np_get xs k =
     (let n = int (length xs); j = (if k < 0 then n + k else k)
      in if 0 \<le> j \<and> j < n then Inr (xs ! nat j) else Inl IndexError)"

text \<open>
  \<^verbatim>\<open>xs[a:b]\<close>: both bounds are taken from the end when negative and then clamped to
  \<open>[0, n]\<close>; an empty range gives the empty sequence. A slice never raises.
\<close>

definition slice_bound :: "int \<Rightarrow> int \<Rightarrow> nat" where
  "slice_bound n k = (let j = (if k < 0 then n + k else k) in nat (max 0 (min n j)))"

definition py_slice :: "'a list \<Rightarrow> int \<Rightarrow> int \<Rightarrow> 'a list" where
  "py_slice xs a b =
     (let n = int (length xs); lo = slice_bound n a; hi = slice_bound n b
      in take (hi - lo) (drop lo xs))"

section \<open>gen\_data\<close>

text \<open>
  \<^verbatim>\<open>
  def gen_data(size=1000000):
      X = np.array(np.random.choice(2, size=(size,)))
      Y = []
      for i in range(size):
          threshold = 0.5
          if X[i-3] == 1:
              threshold += 0.5
          if X[i-8] == 1:
              threshold -= 0.25
          if np.random.rand() > threshold:
              Y.append(0)
          else:
              Y.append(1)
      return X, np.array(Y)
  \<close>
  The random generator is an input. \<open>choice k\<close> is the \<open>k\<close>-th element that
  \<^verbatim>\<open>np.random.choice(2, size=(size,))\<close> draws (numpy returns an array of exactly
  \<open>size\<close> elements, and raises \<^verbatim>\<open>ValueError\<close> for a negative \<open>size\<close>); \<open>rand i\<close> is
  the value \<^verbatim>\<open>np.random.rand()\<close> returns in iteration \<open>i\<close>, the only call of that
  iteration. The thresholds \<open>0.5\<close>, \<open>1.0\<close>, \<open>0.25\<close> and \<open>0.75\<close> and the steps between them
  are exact binary floating-point numbers, and a float comparison is exact, so the
  draws and the threshold are modelled as rationals.
\<close>

definition gen_data_step ::
  "int list \<Rightarrow> (nat \<Rightarrow> rat) \<Rightarrow> nat \<Rightarrow> int list \<Rightarrow> py_error + int list" where
  "gen_data_step X rand i Y =
     (let threshold = 1 / 2 in
      case np_get X (int i - 3) of
        Inl e \<Rightarrow> Inl e
      | Inr x3 \<Rightarrow>
          (let threshold = (if x3 = 1 then threshold + 1 / 2 else threshold) in
           case np_get X (int i - 8) of
             Inl e \<Rightarrow> Inl e
           | Inr x8 \<Rightarrow>
               (let threshold = (if x8 = 1 then threshold - 1 / 4 else threshold) in
                if rand i > threshold then Inr (Y @ [0]) else Inr (Y @ [1]))))"

fun gen_data_loop ::
  "int list \<Rightarrow> (nat \<Rightarrow> rat) \<Rightarrow> nat list \<Rightarrow> int list \<Rightarrow> py_error + int list" where
  "gen_data_loop X rand [] Y = Inr Y"
| "gen_data_loop X rand (i # rest) Y =
     (case gen_data_step X rand i Y of
        Inl e \<Rightarrow> Inl e
      | Inr Y' \<Rightarrow> gen_data_loop X rand rest Y')"

definition gen_data :: "int \<Rightarrow> (nat \<Rightarrow> int) \<Rightarrow> (nat \<Rightarrow> rat) \<Rightarrow> py_error + (int list \<times> int list)" where
  "gen_data sz choice rand =
     (if sz < 0 then Inl ValueError
      else
        let X = map choice [0..<nat sz] in
        case gen_data_loop X rand [0..<nat sz] [] of
          Inl e \<Rightarrow> Inl e
        | Inr Y \<Rightarrow> Inr (X, Y))"

text \<open>
  The rule of the data generator in the words of its description: the threshold starts
  at \<open>0.5\<close>, goes up by \<open>0.5\<close> when the lag-3 bit is 1 and down by \<open>0.25\<close> when the
  lag-8 bit is 1; the label is 1 exactly when the draw does not exceed it.
\<close>

definition lag_threshold :: "int \<Rightarrow> int \<Rightarrow> rat" where
  "lag_threshold x3 x8 = 1 / 2 + (if x3 = 1 then 1 / 2 else 0) - (if x8 = 1 then 1 / 4 else 0)"

definition label_of :: "int \<Rightarrow> int \<Rightarrow> rat \<Rightarrow> int" where
  "label_of x3 x8 r = (if r \<le> lag_threshold x3 x8 then 1 else 0)"

text \<open>The index a lagged read reaches once numpy has wrapped a negative index.\<close>

definition lag_index :: "nat \<Rightarrow> nat \<Rightarrow> nat \<Rightarrow> nat" where
  "lag_index n i k = (if k \<le> i then i - k else n + i - k)"

section \<open>gen\_batch\<close>

text \<open>
  \<^verbatim>\<open>
  def gen_batch(raw_data, batch_size, num_steps):
      raw_x, raw_y = raw_data
      data_length = len(raw_x)
      # partition raw data into batches and stack them vertically in a data matrix
      batch_partition_length = data_length // batch_size
      data_x = np.zeros([batch_size, batch_partition_length], dtype=np.int32)
      data_y = np.zeros([batch_size, batch_partition_length], dtype=np.int32)
      for i in range(batch_size):
          data_x[i] = raw_x[batch_partition_length * i:batch_partition_length * (i + 1)]
          data_y[i] = raw_y[batch_partition_length * i:batch_partition_length * (i + 1)]
      # further divide batch partitions into num_steps for truncated backprop
      epoch_size = batch_partition_length // num_steps
      for i in range(epoch_size):
          x = data_x[:, i * num_steps:(i + 1) * num_steps]
          y = data_y[:, i * num_steps:(i + 1) * num_steps]
          yield (x, y)
  \<close>
  The raw arrays are integer arrays as \<^verbatim>\<open>gen_data\<close> returns them; an element is
  modelled by its value, an \<open>int\<close>. The two data matrices have \<^verbatim>\<open>dtype=np.int32\<close>:
  a matrix is a list of rows of 32-bit words, and storing a value into it keeps its low
  32 bits (numpy converts without a range check when it assigns an array to an array
  of another integer type). \<open>sint\<close> reads an element back as a signed number.
\<close>

type_synonym matrix = "32 word list list"

definition astype_int32 :: "int \<Rightarrow> 32 word" where
  "astype_int32 v = word_of_int v"

text \<open>\<^verbatim>\<open>np.zeros([rows, cols], dtype=np.int32)\<close>: a negative dimension raises.\<close>

definition np_zeros :: "int \<Rightarrow> int \<Rightarrow> py_error + matrix" where
  "np_zeros rows cols =
     (if rows < 0 \<or> cols < 0 then Inl ValueError
      else Inr (replicate (nat rows) (replicate (nat cols) 0)))"

text \<open>
  \<^verbatim>\<open>data[i] = vs\<close> for a row index \<open>i\<close> and a one-dimensional \<open>vs\<close>: numpy broadcasts
  \<open>vs\<close> to the row, so \<open>vs\<close> has the length of the row or length 1; any other length
  raises \<^verbatim>\<open>ValueError\<close>.
\<close>

definition assign_row :: "matrix \<Rightarrow> nat \<Rightarrow> int list \<Rightarrow> py_error + matrix" where
  "assign_row data i vs =
     (if length data \<le> i then Inl IndexError
      else
        let width = length (data ! i) in
        if length vs = width then Inr (data[i := map astype_int32 vs])
        else if length vs = 1 then Inr (data[i := replicate width (astype_int32 (hd vs))])
        else Inl ValueError)"

fun stack_loop ::
  "int list \<Rightarrow> int list \<Rightarrow> int \<Rightarrow> nat list \<Rightarrow> matrix \<Rightarrow> matrix \<Rightarrow> py_error + (matrix \<times> matrix)" where
  "stack_loop raw_x raw_y batch_partition_length [] data_x data_y = Inr (data_x, data_y)"
| "stack_loop raw_x raw_y batch_partition_length (i # rest) data_x data_y =
     (case assign_row data_x i
             (py_slice raw_x (batch_partition_length * int i) (batch_partition_length * (int i + 1))) of
        Inl e \<Rightarrow> Inl e
      | Inr data_x' \<Rightarrow>
          (case assign_row data_y i
                  (py_slice raw_y (batch_partition_length * int i) (batch_partition_length * (int i + 1))) of
             Inl e \<Rightarrow> Inl e
           | Inr data_y' \<Rightarrow> stack_loop raw_x raw_y batch_partition_length rest data_x' data_y'))"

text \<open>
  The first half of \<^verbatim>\<open>gen_batch\<close>, up to the end of its first loop: the partition
  length and the two stacked data matrices.
\<close>

definition stack_partitions ::
  "int list \<times> int list \<Rightarrow> int \<Rightarrow> py_error + (int \<times> matrix \<times> matrix)" where
  "stack_partitions raw_data batch_size =
     (case raw_data of (raw_x, raw_y) \<Rightarrow>
        let data_length = int (length raw_x) in
        if batch_size = 0 then Inl ZeroDivisionError
        else
          let batch_partition_length = data_length div batch_size in
          case np_zeros batch_size batch_partition_length of
            Inl e \<Rightarrow> Inl e
          | Inr data_x \<Rightarrow>
              (case np_zeros batch_size batch_partition_length of
                 Inl e \<Rightarrow> Inl e
               | Inr data_y \<Rightarrow>
                   (case stack_loop raw_x raw_y batch_partition_length [0..<nat batch_size] data_x data_y of
                      Inl e \<Rightarrow> Inl e
                    | Inr (data_x', data_y') \<Rightarrow> Inr (batch_partition_length, data_x', data_y'))))"

text \<open>\<^verbatim>\<open>data[:, a:b]\<close>: the same slice of every row.\<close>

definition columns :: "matrix \<Rightarrow> int \<Rightarrow> int \<Rightarrow> matrix" where
  "columns data a b = map (\<lambda>row. py_slice row a b) data"

text \<open>
  The generator is modelled by the list of the pairs it yields until it is exhausted.
  Every exception of its body is raised before the first \<^verbatim>\<open>yield\<close> (the second loop
  only slices), so the result is either an exception or the whole list.
\<close>

definition gen_batch ::
  "int list \<times> int list \<Rightarrow> int \<Rightarrow> int \<Rightarrow> py_error + (matrix \<times> matrix) list" where
  "gen_batch raw_data batch_size num_steps =
     (case stack_partitions raw_data batch_size of
        Inl e \<Rightarrow> Inl e
      | Inr (batch_partition_length, data_x, data_y) \<Rightarrow>
          if num_steps = 0 then Inl ZeroDivisionError
          else
            let epoch_size = batch_partition_length div num_steps in
            Inr (map (\<lambda>i. (columns data_x (int i * num_steps) ((int i + 1) * num_steps),
                           columns data_y (int i * num_steps) ((int i + 1) * num_steps)))
                     [0..<nat epoch_size]))"

text \<open>The number of elements of a matrix (numpy's \<^verbatim>\<open>size\<close>).\<close>

definition elements :: "matrix \<Rightarrow> nat" where
  "elements m = sum_list (map length m)"

text \<open>A matrix has shape \<open>[rows, cols]\<close>.\<close>

definition has_shape :: "matrix \<Rightarrow> nat \<Rightarrow> nat \<Rightarrow> bool" where
  "has_shape m rows cols = (length m = rows \<and> list_all (\<lambda>row. length row = cols) m)"

text \<open>
  The closed form of the matrix the first loop builds: row \<open>r\<close> holds the slice
  \<^verbatim>\<open>raw[p * r : p * (r + 1)]\<close>, stored as int32.
\<close>

definition stacked :: "int list \<Rightarrow> int \<Rightarrow> int \<Rightarrow> matrix" where
  "stacked raw p batch_size =
     map (\<lambda>r. map astype_int32 (py_slice raw (p * int r) (p * (int r + 1)))) [0..<nat batch_size]"

text \<open>A value that an int32 element holds unchanged.\<close>

definition fits_int32 :: "int \<Rightarrow> bool" where
  "fits_int32 v = (- (2 ^ 31) \<le> v \<and> v < 2 ^ 31)"

text \<open>
  The raw index that position \<open>[r][c]\<close> of the \<open>i\<close>-th yielded pair is said to come
  from: \<^verbatim>\<open>(len(raw_x) // batch_size) * r + i * num_steps + c\<close>.
\<close>

definition raw_index :: "nat \<Rightarrow> int \<Rightarrow> int \<Rightarrow> nat \<Rightarrow> nat \<Rightarrow> nat \<Rightarrow> nat" where
  "raw_index data_length batch_size num_steps i r c =
     nat (int data_length div batch_size) * r + i * nat num_steps + c"

text \<open>The elements of the first and of the second components of all yielded pairs.\<close>

definition yielded_x :: "(matrix \<times> matrix) list \<Rightarrow> nat" where
  "yielded_x batches = sum_list (map (\<lambda>(x, y). elements x) batches)"

definition yielded_y :: "(matrix \<times> matrix) list \<Rightarrow> nat" where
  "yielded_y batches = sum_list (map (\<lambda>(x, y). elements y) batches)"

section \<open>train\_network\<close>

text \<open>
  \<^verbatim>\<open>
  def train_network(num_epochs, num_steps, state_size=4, verbose=True):
      with tf.Session() as sess:
          sess.run(tf.global_variables_initializer())
          training_losses = []
          for idx, epoch in enumerate(gen_epochs(num_epochs, num_steps)):
              training_loss = 0
              training_state = np.zeros((batch_size, state_size))
              for step, (X, Y) in enumerate(epoch):
                  tr_losses, training_loss_, training_state, _ = \
                      sess.run([losses_last, total_loss, final_state, train_step],
                               feed_dict={x:X, y:Y, init_state:training_state})
                  training_loss += training_loss_
                  if step % 100 == 0 and step > 0:
                      training_losses.append(training_loss/100)
                      training_loss = 0
      return training_losses
  \<close>
  The session is the framework's: the value \<^verbatim>\<open>training_loss_\<close> it returns at each step
  is an input, called \<open>step_loss\<close> below. An epoch is the list of these values, one for each batch the epoch
  yields, and \<open>epochs\<close> is the list of the epochs. The losses are floating-point
  numbers, so their type and the three operations on them are parameters: \<open>add\<close> is
  \<^verbatim>\<open>+\<close>, \<open>div100\<close> is \<^verbatim>\<open>/100\<close> and \<open>zero\<close> is the initial \<^verbatim>\<open>0\<close>. Printing is left out.
\<close>

fun epoch_loop ::
  "('a \<Rightarrow> 'a \<Rightarrow> 'a) \<Rightarrow> ('a \<Rightarrow> 'a) \<Rightarrow> 'a \<Rightarrow> (nat \<times> 'a) list \<Rightarrow> 'a \<Rightarrow> 'a list \<Rightarrow> 'a \<times> 'a list" where
  "epoch_loop add div100 zero [] training_loss training_losses = (training_loss, training_losses)"
| "epoch_loop add div100 zero ((step, step_loss) # rest) training_loss training_losses =
     (let training_loss = add training_loss step_loss in
      if step mod 100 = 0 \<and> step > 0
      then epoch_loop add div100 zero rest zero (training_losses @ [div100 training_loss])
      else epoch_loop add div100 zero rest training_loss training_losses)"

fun train_loop ::
  "('a \<Rightarrow> 'a \<Rightarrow> 'a) \<Rightarrow> ('a \<Rightarrow> 'a) \<Rightarrow> 'a \<Rightarrow> 'a list list \<Rightarrow> 'a list \<Rightarrow> 'a list" where
  "train_loop add div100 zero [] training_losses = training_losses"
| "train_loop add div100 zero (epoch # rest) training_losses =
     (let training_loss = zero in
      train_loop add div100 zero rest
        (snd (epoch_loop add div100 zero (enumerate 0 epoch) training_loss training_losses)))"

definition train_network ::
  "('a \<Rightarrow> 'a \<Rightarrow> 'a) \<Rightarrow> ('a \<Rightarrow> 'a) \<Rightarrow> 'a \<Rightarrow> 'a list list \<Rightarrow> 'a list" where
  "train_network add div100 zero epochs = train_loop add div100 zero epochs []"

text \<open>
  The logging rule in the words of its description. An epoch of \<open>n\<close> steps logs at
  the steps that are positive multiples of 100; the accumulator restarts from zero
  after each of them, so at a logging step it holds the losses of the steps since the
  previous logging step, or since the start of the epoch.
\<close>

definition logging_steps :: "nat \<Rightarrow> nat list" where
  "logging_steps n = filter (\<lambda>step. step mod 100 = 0 \<and> step > 0) [0..<n]"

definition accumulated_from :: "nat \<Rightarrow> nat" where
  "accumulated_from step =
     (if logging_steps step = [] then 0 else Suc (last (logging_steps step)))"

definition logged_entries ::
  "('a \<Rightarrow> 'a \<Rightarrow> 'a) \<Rightarrow> ('a \<Rightarrow> 'a) \<Rightarrow> 'a \<Rightarrow> 'a list \<Rightarrow> 'a list" where
  "logged_entries add div100 zero losses =
     map (\<lambda>step. div100 (foldl add zero (drop (accumulated_from step) (take (Suc step) losses))))
         (logging_steps (length losses))"

section \<open>Sample inputs\<close>

text \<open>Fixed inputs for the concrete evaluations below.\<close>

definition draws_of :: "'a list \<Rightarrow> 'a \<Rightarrow> nat \<Rightarrow> 'a" where
  "draws_of xs d k = (if k < length xs then xs ! k else d)"

definition sample_x :: "int list" where
  "sample_x = [1, 0, 1, 1, 0, 1, 0, 0, 1, 1]"

definition sample_y :: "int list" where
  "sample_y = [0, 1, 1, 0, 1, 1, 0, 0, 1, 1]"

definition rat_add :: "rat \<Rightarrow> rat \<Rightarrow> rat" where
  "rat_add a b = a + b"

definition rat_div100 :: "rat \<Rightarrow> rat" where
  "rat_div100 v = v / 100"

section \<open>Properties of gen\_data\<close>

lemma np_get_lag:
  assumes "k \<le> length X" "0 < k" "i < length X"
  shows "np_get X (int i - int k) = Inr (X ! lag_index (length X) i k)"
proof (cases "k \<le> i")
  case True
  then have "nat (int i - int k) = i - k" by simp
  with True assms show ?thesis
    by (simp add: np_get_def lag_index_def Let_def)
next
  case False
  then have "nat (int (length X) + (int i - int k)) = length X + i - k"
    using assms by simp
  with False assms show ?thesis
    by (simp add: np_get_def lag_index_def Let_def)
qed

lemma gen_data_step_ok:
  assumes "8 \<le> length X" "i < length X"
  shows "gen_data_step X rand i Y =
    Inr (Y @ [label_of (X ! lag_index (length X) i 3) (X ! lag_index (length X) i 8) (rand i)])"
proof -
  have g3: "np_get X (int i - 3) = Inr (X ! lag_index (length X) i 3)"
    using np_get_lag [of 3 X i] assms by simp
  have g8: "np_get X (int i - 8) = Inr (X ! lag_index (length X) i 8)"
    using np_get_lag [of 8 X i] assms by simp
  show ?thesis
    by (simp add: gen_data_step_def g3 g8 label_of_def lag_threshold_def Let_def)
qed

lemma gen_data_loop_ok:
  assumes "8 \<le> length X" "\<forall>i \<in> set idx. i < length X"
  shows "gen_data_loop X rand idx Y =
    Inr (Y @ map (\<lambda>i. label_of (X ! lag_index (length X) i 3) (X ! lag_index (length X) i 8) (rand i)) idx)"
  using assms
proof (induction idx arbitrary: Y)
  case Nil
  then show ?case by simp
next
  case (Cons i rest)
  then show ?case by (simp add: gen_data_step_ok)
qed

lemma gen_data_ok:
  assumes "8 \<le> sz"
  shows "gen_data sz choice rand =
    Inr (map choice [0..<nat sz],
         map (\<lambda>i. label_of (map choice [0..<nat sz] ! lag_index (nat sz) i 3)
                            (map choice [0..<nat sz] ! lag_index (nat sz) i 8) (rand i))
             [0..<nat sz])"
proof -
  let ?X = "map choice [0..<nat sz]"
  have len: "length ?X = nat sz" by simp
  have "8 \<le> length ?X" using assms by simp
  moreover have "\<forall>i \<in> set [0..<nat sz]. i < length ?X" by simp
  ultimately have "gen_data_loop ?X rand [0..<nat sz] [] =
    Inr ([] @ map (\<lambda>i. label_of (?X ! lag_index (length ?X) i 3) (?X ! lag_index (length ?X) i 8) (rand i)) [0..<nat sz])"
    by (rule gen_data_loop_ok)
  then show ?thesis
    using assms by (simp add: gen_data_def Let_def del: map_map)
qed

lemma gen_data_small:
  assumes "1 \<le> sz" "sz \<le> 7"
  shows "gen_data sz choice rand = Inl IndexError"
proof -
  obtain m where m: "nat sz = Suc m" using assms(1) by (cases "nat sz") simp_all
  have upt: "[0..<nat sz] = 0 # [1..<nat sz]" using m by (simp add: upt_conv_Cons)
  let ?X = "map choice [0..<nat sz]"
  have len: "int (length ?X) = sz" using assms(1) by simp
  have "np_get ?X (- 8) = Inl IndexError"
    unfolding np_get_def Let_def len using assms by simp
  moreover have "np_get ?X (- 3) = Inl IndexError \<or> (\<exists>v. np_get ?X (- 3) = Inr v)"
    by (cases "np_get ?X (- 3)") (auto simp: np_get_def Let_def split: if_splits)
  ultimately have "gen_data_step ?X rand 0 [] = Inl IndexError"
    by (auto simp: gen_data_step_def Let_def)
  then have "gen_data_loop ?X rand [0..<nat sz] [] = Inl IndexError"
    by (subst upt) simp
  then show ?thesis using assms by (simp add: gen_data_def Let_def)
qed

lemma nth_map_upt0: "i < n \<Longrightarrow> map f [0..<n] ! i = f i"
  by simp

lemma gen_data_empty: "gen_data 0 choice rand = Inr ([], [])"
  by (simp add: gen_data_def)

lemma draws_of_bits:
  assumes "set xs \<subseteq> {0, 1}"
  shows "draws_of xs (0::int) k = 0 \<or> draws_of xs 0 k = 1"
proof (cases "k < length xs")
  case True
  then have "xs ! k \<in> {0, 1}" using assms nth_mem [of k xs] by blast
  with True show ?thesis by (simp add: draws_of_def)
next
  case False
  then show ?thesis by (simp add: draws_of_def)
qed

lemma gen_data_sample:
  "gen_data 8 (draws_of [1, 0, 1, 1, 0, 1, 0, 0] 0)
              (draws_of [1 / 2, 3 / 4, 1 / 4, 9 / 10, 0, 1 / 3, 4 / 5, 3 / 5] 0)
    = Inr ([1, 0, 1, 1, 0, 1, 0, 0], [1, 0, 1, 0, 1, 1, 1, 0])"
  by code_simp

lemma gen_data_sample_wrap:
  "gen_data 10 (draws_of [1, 0, 1, 1, 0, 1, 0, 0, 1, 1] 0)
                (draws_of [1 / 2, 3 / 4, 1 / 4, 9 / 10, 0, 1 / 3, 4 / 5, 3 / 5, 1 / 5, 1 / 8] 0)
   = Inr ([1, 0, 1, 1, 0, 1, 0, 0, 1, 1], [0, 1, 1, 0, 1, 1, 0, 0, 1, 1])"
  by code_simp

lemma gen_data_sample_tail:
  "gen_data 10 (draws_of [1, 0, 1, 1, 0, 1, 0, 1, 1, 1] 0)
                (draws_of [1 / 2, 3 / 4, 1 / 4, 9 / 10, 0, 1 / 3, 4 / 5, 3 / 5, 1 / 5, 1 / 8] 0)
   = Inr ([1, 0, 1, 1, 0, 1, 0, 1, 1, 1], [1, 1, 1, 0, 1, 1, 0, 0, 1, 1])"
  by code_simp

section \<open>Properties of gen\_batch\<close>


lemma py_slice_plain:
  assumes "0 \<le> a" "a \<le> b" "b \<le> int (length xs)"
  shows "py_slice xs a b = take (nat b - nat a) (drop (nat a) xs)"
  using assms by (simp add: py_slice_def slice_bound_def Let_def min_def max_def)

lemma length_py_slice:
  assumes "0 \<le> a" "a \<le> b" "b \<le> int (length xs)"
  shows "length (py_slice xs a b) = nat (b - a)"
  using assms by (simp add: py_slice_plain)

lemma nth_py_slice:
  assumes "0 \<le> a" "a \<le> b" "b \<le> int (length xs)" "c < nat (b - a)"
  shows "py_slice xs a b ! c = xs ! (nat a + c)"
  using assms by (simp add: py_slice_plain)

lemma py_slice_nat:
  assumes "lo + len \<le> length xs"
  shows "py_slice xs (int lo) (int (lo + len)) = take len (drop lo xs)"
proof -
  have "py_slice xs (int lo) (int (lo + len)) = take (nat (int (lo + len)) - nat (int lo)) (drop (nat (int lo)) xs)"
    using assms by (intro py_slice_plain) simp_all
  moreover have "nat (int (lo + len)) - nat (int lo) = len" by simp
  ultimately show ?thesis by (simp only: nat_int)
qed

lemma length_fold_update:
  "length (fold (\<lambda>i d. d[i := f i]) idx d) = length d"
  by (induction idx arbitrary: d) simp_all

lemma nth_fold_update:
  "j < length d \<Longrightarrow>
     fold (\<lambda>i d. d[i := f i]) idx d ! j = (if j \<in> set idx then f j else d ! j)"
proof (induction idx arbitrary: d)
  case Nil
  then show ?case by simp
next
  case (Cons i rest)
  then show ?case by (simp add: nth_list_update)
qed

lemma fold_update_all:
  assumes "length d = n"
  shows "fold (\<lambda>i d. d[i := f i]) [0..<n] d = map f [0..<n]"
  using assms by (simp add: list_eq_iff_nth_eq length_fold_update nth_fold_update)

lemma assign_row_full:
  assumes "i < length data" "length vs = length (data ! i)"
  shows "assign_row data i vs = Inr (data[i := map astype_int32 vs])"
  using assms by (simp add: assign_row_def)

lemma stack_loop_ok:
  assumes "\<forall>i \<in> set idx. i < length data_x \<and> i < length data_y"
    and "\<forall>row \<in> set data_x. length row = w" and "\<forall>row \<in> set data_y. length row = w"
    and "\<forall>i \<in> set idx. length (py_slice raw_x (p * int i) (p * (int i + 1))) = w
           \<and> length (py_slice raw_y (p * int i) (p * (int i + 1))) = w"
  shows "stack_loop raw_x raw_y p idx data_x data_y =
    Inr (fold (\<lambda>i d. d[i := map astype_int32 (py_slice raw_x (p * int i) (p * (int i + 1)))]) idx data_x,
         fold (\<lambda>i d. d[i := map astype_int32 (py_slice raw_y (p * int i) (p * (int i + 1)))]) idx data_y)"
  using assms
proof (induction idx arbitrary: data_x data_y)
  case Nil
  then show ?case by simp
next
  case (Cons i rest)
  let ?vx = "py_slice raw_x (p * int i) (p * (int i + 1))"
  let ?vy = "py_slice raw_y (p * int i) (p * (int i + 1))"
  have ix: "i < length data_x" and iy: "i < length data_y"
    using Cons.prems(1) by simp_all
  have wx: "length (data_x ! i) = w" using Cons.prems(2) ix by simp
  have wy: "length (data_y ! i) = w" using Cons.prems(3) iy by simp
  have lx: "length ?vx = w" and ly: "length ?vy = w" using Cons.prems(4) by simp_all
  have ax: "assign_row data_x i ?vx = Inr (data_x[i := map astype_int32 ?vx])"
    using ix wx lx by (simp add: assign_row_full)
  have ay: "assign_row data_y i ?vy = Inr (data_y[i := map astype_int32 ?vy])"
    using iy wy ly by (simp add: assign_row_full)
  have rx: "\<forall>row \<in> set (data_x[i := map astype_int32 ?vx]). length row = w"
    using Cons.prems(2) lx set_update_subset_insert [of data_x i "map astype_int32 ?vx"] by auto
  have ry: "\<forall>row \<in> set (data_y[i := map astype_int32 ?vy]). length row = w"
    using Cons.prems(3) ly set_update_subset_insert [of data_y i "map astype_int32 ?vy"] by auto
  have ih: "stack_loop raw_x raw_y p rest (data_x[i := map astype_int32 ?vx]) (data_y[i := map astype_int32 ?vy]) =
    Inr (fold (\<lambda>i d. d[i := map astype_int32 (py_slice raw_x (p * int i) (p * (int i + 1)))]) rest (data_x[i := map astype_int32 ?vx]),
         fold (\<lambda>i d. d[i := map astype_int32 (py_slice raw_y (p * int i) (p * (int i + 1)))]) rest (data_y[i := map astype_int32 ?vy]))"
    using Cons.prems(1) Cons.prems(4) rx ry by (intro Cons.IH) simp_all
  show ?case by (simp add: ax ay ih)
qed

lemma partition_bound:
  assumes "0 < b" "r < b"
  shows "(n div b) * (r + 1) \<le> (n::nat)"
proof -
  have "(n div b) * (r + 1) \<le> (n div b) * b"
    using assms by (intro mult_le_mono2) simp
  also have "\<dots> \<le> n" by simp
  finally show ?thesis .
qed

lemma stack_partitions_ok:
  assumes "length raw_y = length raw_x" "1 \<le> batch_size"
  shows "stack_partitions (raw_x, raw_y) batch_size =
    Inr (int (length raw_x) div batch_size,
         map (\<lambda>r. map astype_int32 (py_slice raw_x (int (length raw_x) div batch_size * int r)
                      (int (length raw_x) div batch_size * (int r + 1)))) [0..<nat batch_size],
         map (\<lambda>r. map astype_int32 (py_slice raw_y (int (length raw_x) div batch_size * int r)
                      (int (length raw_x) div batch_size * (int r + 1)))) [0..<nat batch_size])"
proof -
  define b where "b = nat batch_size"
  define n where "n = length raw_x"
  define p where "p = int n div batch_size"
  have bs: "batch_size = int b" and bpos: "0 < b" using assms(2) by (simp_all add: b_def)
  have p_eq: "p = int (n div b)" by (simp add: p_def bs zdiv_int)
  have p0: "0 \<le> p" by (simp add: p_eq)
  have bound: "p * (int r + 1) \<le> int n" if "r < b" for r
  proof -
    have "(n div b) * (r + 1) \<le> n" using bpos that by (rule partition_bound)
    then have "int ((n div b) * (r + 1)) \<le> int n" by (simp only: of_nat_le_iff)
    then show ?thesis by (simp add: p_eq algebra_simps)
  qed
  have mono: "p * int r \<le> p * (int r + 1)" for r
    using p0 by (simp add: mult_left_mono)
  have lenx: "length (py_slice raw_x (p * int r) (p * (int r + 1))) = nat p" if "r < b" for r
  proof -
    have "length (py_slice raw_x (p * int r) (p * (int r + 1))) = nat (p * (int r + 1) - p * int r)"
      using p0 mono bound [OF that] by (intro length_py_slice) (simp_all add: n_def)
    also have "p * (int r + 1) - p * int r = p" by (simp add: algebra_simps)
    finally show ?thesis .
  qed
  have leny: "length (py_slice raw_y (p * int r) (p * (int r + 1))) = nat p" if "r < b" for r
  proof -
    have "length (py_slice raw_y (p * int r) (p * (int r + 1))) = nat (p * (int r + 1) - p * int r)"
      using p0 mono bound [OF that] assms(1) by (intro length_py_slice) (simp_all add: n_def)
    also have "p * (int r + 1) - p * int r = p" by (simp add: algebra_simps)
    finally show ?thesis .
  qed
  let ?z = "replicate b (replicate (nat p) (0::32 word))"
  have zeros: "np_zeros batch_size p = Inr ?z"
    using p0 assms(2) by (simp add: np_zeros_def b_def)
  have loop: "stack_loop raw_x raw_y p [0..<b] ?z ?z =
    Inr (fold (\<lambda>i d. d[i := map astype_int32 (py_slice raw_x (p * int i) (p * (int i + 1)))]) [0..<b] ?z,
         fold (\<lambda>i d. d[i := map astype_int32 (py_slice raw_y (p * int i) (p * (int i + 1)))]) [0..<b] ?z)"
    by (rule stack_loop_ok [where w = "nat p"]) (simp_all add: lenx leny)
  have fx: "fold (\<lambda>i d. d[i := map astype_int32 (py_slice raw_x (p * int i) (p * (int i + 1)))]) [0..<b] ?z
      = map (\<lambda>r. map astype_int32 (py_slice raw_x (p * int r) (p * (int r + 1)))) [0..<b]"
    by (rule fold_update_all) simp
  have fy: "fold (\<lambda>i d. d[i := map astype_int32 (py_slice raw_y (p * int i) (p * (int i + 1)))]) [0..<b] ?z
      = map (\<lambda>r. map astype_int32 (py_slice raw_y (p * int r) (p * (int r + 1)))) [0..<b]"
    by (rule fold_update_all) simp
  have "stack_partitions (raw_x, raw_y) batch_size =
    Inr (p, map (\<lambda>r. map astype_int32 (py_slice raw_x (p * int r) (p * (int r + 1)))) [0..<b],
            map (\<lambda>r. map astype_int32 (py_slice raw_y (p * int r) (p * (int r + 1)))) [0..<b])"
    using assms(2) zeros loop
    by (simp add: stack_partitions_def Let_def fx fy flip: p_def n_def b_def)
  then show ?thesis by (simp add: p_def n_def b_def)
qed


lemma stack_partitions_stacked:
  assumes "length raw_y = length raw_x" "1 \<le> batch_size"
  shows "stack_partitions (raw_x, raw_y) batch_size =
    Inr (int (length raw_x) div batch_size,
         stacked raw_x (int (length raw_x) div batch_size) batch_size,
         stacked raw_y (int (length raw_x) div batch_size) batch_size)"
  using assms by (simp add: stack_partitions_ok stacked_def)

lemma gen_batch_ok:
  assumes "length raw_y = length raw_x" "1 \<le> batch_size" "num_steps \<noteq> 0"
  shows "gen_batch (raw_x, raw_y) batch_size num_steps =
    Inr (map (\<lambda>i. (columns (stacked raw_x (int (length raw_x) div batch_size) batch_size)
                        (int i * num_steps) ((int i + 1) * num_steps),
                    columns (stacked raw_y (int (length raw_x) div batch_size) batch_size)
                        (int i * num_steps) ((int i + 1) * num_steps)))
             [0..<nat (int (length raw_x) div batch_size div num_steps)])"
  using assms by (simp add: gen_batch_def stack_partitions_stacked Let_def)

lemma stacked_row:
  assumes "1 \<le> batch_size" "r < nat batch_size"
  shows "stacked raw (int (length raw) div batch_size) batch_size ! r =
    map astype_int32 (take (length raw div nat batch_size) (drop (length raw div nat batch_size * r) raw))"
proof -
  define b where "b = nat batch_size"
  define n where "n = length raw"
  define q where "q = n div b"
  have bs: "batch_size = int b" and bpos: "0 < b" using assms(1) by (simp_all add: b_def)
  have p_eq: "int n div batch_size = int q" by (simp add: q_def bs zdiv_int)
  have rb: "r < b" using assms(2) by (simp add: b_def)
  have "q * (r + 1) \<le> n" unfolding q_def using bpos rb by (rule partition_bound)
  then have le: "q * r + q \<le> n" by (simp add: algebra_simps)
  have a: "int q * int r = int (q * r)" and b: "int q * (int r + 1) = int (q * r + q)"
    by (simp_all add: algebra_simps)
  have "py_slice raw (int q * int r) (int q * (int r + 1)) = take q (drop (q * r) raw)"
    unfolding a b using le by (intro py_slice_nat) (simp add: n_def)
  then show ?thesis
    using rb by (simp add: stacked_def p_eq flip: n_def b_def q_def)
qed

lemma length_stacked: "length (stacked raw p batch_size) = nat batch_size"
  by (simp add: stacked_def)

lemma window_bound:
  assumes "0 < s" "i < q div s"
  shows "i * s + s \<le> (q::nat)"
proof -
  have "(i + 1) * s \<le> (q div s) * s" using assms by (intro mult_le_mono1) simp
  also have "\<dots> \<le> q" by simp
  finally show ?thesis by (simp add: algebra_simps)
qed

lemma window_row:
  assumes "length row = q" "0 < s" "i < q div s"
  shows "py_slice row (int i * int s) ((int i + 1) * int s) = take s (drop (i * s) row)"
proof -
  have le: "i * s + s \<le> q" using assms(2,3) by (rule window_bound)
  have a: "int i * int s = int (i * s)" and b: "(int i + 1) * int s = int (i * s + s)"
    by (simp_all add: algebra_simps)
  show ?thesis
    unfolding a b using le assms(1) by (intro py_slice_nat) simp
qed

lemma window_elem:
  assumes "1 \<le> batch_size" "1 \<le> num_steps"
    and "i < length raw div nat batch_size div nat num_steps"
    and "r < nat batch_size" "c < nat num_steps"
  shows "columns (stacked raw (int (length raw) div batch_size) batch_size)
            (int i * num_steps) ((int i + 1) * num_steps) ! r ! c
          = astype_int32 (raw ! (length raw div nat batch_size * r + i * nat num_steps + c))"
    and "length raw div nat batch_size * r + i * nat num_steps + c < length raw"
proof -
  define b where "b = nat batch_size"
  define s where "s = nat num_steps"
  define n where "n = length raw"
  define q where "q = n div b"
  have ns: "num_steps = int s" and spos: "0 < s" using assms(2) by (simp_all add: s_def)
  have bpos: "0 < b" using assms(1) by (simp add: b_def)
  have rb: "r < b" using assms(4) by (simp add: b_def)
  have cs: "c < s" using assms(5) by (simp add: s_def)
  have iq: "i < q div s" using assms(3) by (simp add: q_def n_def b_def s_def)
  have w: "i * s + s \<le> q" using spos iq by (rule window_bound)
  have "q * (r + 1) \<le> n" unfolding q_def using bpos rb by (rule partition_bound)
  then have le: "q * r + q \<le> n" by (simp add: algebra_simps)
  let ?row = "map astype_int32 (take q (drop (q * r) raw))"
  have row: "stacked raw (int n div batch_size) batch_size ! r = ?row"
    unfolding n_def q_def b_def using assms(1,4) by (rule stacked_row)
  have lrow: "length ?row = q" using le by (simp add: n_def)
  have "columns (stacked raw (int n div batch_size) batch_size) (int i * num_steps) ((int i + 1) * num_steps) ! r
      = py_slice ?row (int i * int s) ((int i + 1) * int s)"
    using rb by (simp add: columns_def length_stacked row ns flip: b_def)
  also have "\<dots> = take s (drop (i * s) ?row)"
    using lrow spos iq by (rule window_row)
  finally have win: "columns (stacked raw (int n div batch_size) batch_size) (int i * num_steps) ((int i + 1) * num_steps) ! r
      = take s (drop (i * s) ?row)" .
  have idx: "i * s + c < q" using w cs by simp
  have "take s (drop (i * s) ?row) ! c = ?row ! (i * s + c)"
    using cs idx lrow by simp
  also have "\<dots> = astype_int32 (raw ! (q * r + (i * s + c)))"
    using idx le by (simp add: n_def)
  finally show "columns (stacked raw (int (length raw) div batch_size) batch_size)
            (int i * num_steps) ((int i + 1) * num_steps) ! r ! c
          = astype_int32 (raw ! (length raw div nat batch_size * r + i * nat num_steps + c))"
    using win by (simp add: n_def q_def b_def s_def add.assoc)
  show "length raw div nat batch_size * r + i * nat num_steps + c < length raw"
    using idx le by (simp flip: n_def b_def s_def q_def)
qed

lemma window_shape:
  assumes "1 \<le> batch_size" "1 \<le> num_steps"
    and "i < length raw div nat batch_size div nat num_steps"
  shows "has_shape (columns (stacked raw (int (length raw) div batch_size) batch_size)
            (int i * num_steps) ((int i + 1) * num_steps)) (nat batch_size) (nat num_steps)"
proof -
  define b where "b = nat batch_size"
  define s where "s = nat num_steps"
  define n where "n = length raw"
  define q where "q = n div b"
  have ns: "num_steps = int s" and spos: "0 < s" using assms(2) by (simp_all add: s_def)
  have bpos: "0 < b" using assms(1) by (simp add: b_def)
  have iq: "i < q div s" using assms(3) by (simp add: q_def n_def b_def s_def)
  have w: "i * s + s \<le> q" using spos iq by (rule window_bound)
  have "length (py_slice (stacked raw (int n div batch_size) batch_size ! r) (int i * num_steps) ((int i + 1) * num_steps)) = s"
    if "r < b" for r
  proof -
    have "q * (r + 1) \<le> n" unfolding q_def using bpos that by (rule partition_bound)
    then have le: "q * r + q \<le> n" by (simp add: algebra_simps)
    let ?row = "map astype_int32 (take q (drop (q * r) raw))"
    have row: "stacked raw (int n div batch_size) batch_size ! r = ?row"
      unfolding n_def q_def b_def using assms(1) that by (intro stacked_row) (simp_all add: b_def)
    have lrow: "length ?row = q" using le by (simp add: n_def)
    have "py_slice ?row (int i * int s) ((int i + 1) * int s) = take s (drop (i * s) ?row)"
      using lrow spos iq by (rule window_row)
    then show ?thesis using w lrow by (simp add: row ns)
  qed
  then show ?thesis
    by (simp add: has_shape_def columns_def length_stacked list_all_length flip: b_def s_def n_def)
qed

lemma epoch_size_nat:
  assumes "1 \<le> batch_size" "1 \<le> num_steps"
  shows "nat (int n div batch_size div num_steps) = n div nat batch_size div nat num_steps"
proof -
  have "batch_size = int (nat batch_size)" "num_steps = int (nat num_steps)"
    using assms by simp_all
  then have "int n div batch_size div num_steps = int (n div nat batch_size div nat num_steps)"
    by (metis zdiv_int)
  then show ?thesis by simp
qed

lemma partition_length_nat:
  assumes "1 \<le> batch_size"
  shows "nat (int n div batch_size) = n div nat batch_size"
proof -
  have "batch_size = int (nat batch_size)" using assms by simp
  then have "int n div batch_size = int (n div nat batch_size)" by (metis zdiv_int)
  then show ?thesis by simp
qed

lemma elements_shape:
  assumes "has_shape m rows cols"
  shows "elements m = rows * cols"
proof -
  have "list_all (\<lambda>row. length row = cols) m \<Longrightarrow> sum_list (map length m) = length m * cols"
    by (induction m) simp_all
  then show ?thesis using assms by (simp add: has_shape_def elements_def)
qed

lemma sum_list_const:
  assumes "\<forall>x \<in> set xs. g x = (k::nat)"
  shows "sum_list (map g xs) = length xs * k"
  using assms by (induction xs) simp_all

lemma gen_batch_windows_nat:
  assumes "length raw_y = length raw_x" "1 \<le> batch_size" "1 \<le> num_steps"
  shows "gen_batch (raw_x, raw_y) batch_size num_steps =
    Inr (map (\<lambda>i. (columns (stacked raw_x (int (length raw_x) div batch_size) batch_size)
                        (int i * num_steps) ((int i + 1) * num_steps),
                    columns (stacked raw_y (int (length raw_y) div batch_size) batch_size)
                        (int i * num_steps) ((int i + 1) * num_steps)))
             [0..<length raw_x div nat batch_size div nat num_steps])"
proof -
  have "num_steps \<noteq> 0" using assms(3) by simp
  with assms show ?thesis
    by (simp add: gen_batch_ok epoch_size_nat)
qed

lemma sint_astype_int32:
  assumes "fits_int32 v"
  shows "sint (astype_int32 v) = v"
proof -
  have "sint (word_of_int v :: 32 word) = signed_take_bit (LENGTH(32) - 1) v"
    by (rule sint_sbintrunc')
  also have "\<dots> = v"
    using assms by (intro signed_take_bit_int_eq_self) (simp_all add: fits_int32_def)
  finally show ?thesis by (simp add: astype_int32_def)
qed

lemma set_py_slice: "set (py_slice xs a b) \<subseteq> set xs"
proof -
  have "set (take k (drop l xs)) \<subseteq> set xs" for k l
    using set_take_subset [of k "drop l xs"] set_drop_subset [of l xs] by blast
  then show ?thesis by (simp add: py_slice_def Let_def)
qed

lemma sint_stored_slice:
  assumes "list_all fits_int32 raw"
  shows "map sint (map astype_int32 (py_slice raw a b)) = py_slice raw a b"
proof -
  have "\<forall>v \<in> set (py_slice raw a b). fits_int32 v"
    using assms set_py_slice [of raw a b] by (auto simp: list_all_iff)
  then have "map (\<lambda>v. sint (astype_int32 v)) (py_slice raw a b) = map (\<lambda>v. v) (py_slice raw a b)"
    by (intro map_cong) (simp_all add: sint_astype_int32)
  then show ?thesis by (simp add: comp_def)
qed

lemma nth_stacked:
  assumes "r < nat batch_size"
  shows "stacked raw p batch_size ! r = map astype_int32 (py_slice raw (p * int r) (p * (int r + 1)))"
  using assms by (simp add: stacked_def)

lemma window_col:
  assumes "1 \<le> batch_size" "1 \<le> num_steps"
    and "i < length raw div nat batch_size div nat num_steps"
    and "r < nat batch_size" "c < nat num_steps"
  shows "columns (stacked raw (int (length raw) div batch_size) batch_size)
            (int i * num_steps) ((int i + 1) * num_steps) ! r ! c
          = stacked raw (int (length raw) div batch_size) batch_size ! r ! (i * nat num_steps + c)"
proof -
  define q where "q = length raw div nat batch_size"
  have spos: "0 < nat num_steps" using assms(2) by simp
  have bpos: "0 < nat batch_size" using assms(1) by simp
  have "i * nat num_steps + nat num_steps \<le> q"
    using spos assms(3) unfolding q_def by (rule window_bound)
  then have idx: "i * nat num_steps + c < q" using assms(5) by simp
  have "q * (r + 1) \<le> length raw" unfolding q_def using bpos assms(4) by (rule partition_bound)
  then have le: "q * r + q \<le> length raw" by (simp add: algebra_simps)
  have "stacked raw (int (length raw) div batch_size) batch_size ! r ! (i * nat num_steps + c)
      = map astype_int32 (take q (drop (q * r) raw)) ! (i * nat num_steps + c)"
    unfolding q_def using assms(1,4) by (simp only: stacked_row)
  also have "\<dots> = astype_int32 (raw ! (q * r + (i * nat num_steps + c)))"
    using idx le by simp
  finally have rhs: "stacked raw (int (length raw) div batch_size) batch_size ! r ! (i * nat num_steps + c)
      = astype_int32 (raw ! (q * r + i * nat num_steps + c))" by (simp add: add.assoc)
  show ?thesis
    unfolding rhs q_def using assms by (rule window_elem(1))
qed

lemma slice_full_length:
  fixes raw :: "int list"
  assumes "1 \<le> batch_size" "r < nat batch_size"
  shows "length (py_slice raw (int (length raw) div batch_size * int r)
                    (int (length raw) div batch_size * (int r + 1)))
          = nat (int (length raw) div batch_size)"
proof -
  have "length (stacked raw (int (length raw) div batch_size) batch_size ! r)
      = length (map astype_int32 (take (length raw div nat batch_size) (drop (length raw div nat batch_size * r) raw)))"
    using assms by (simp only: stacked_row)
  moreover have "length raw div nat batch_size * (r + 1) \<le> length raw"
    using assms by (intro partition_bound) simp_all
  ultimately have "length (stacked raw (int (length raw) div batch_size) batch_size ! r)
      = length raw div nat batch_size" by (simp add: algebra_simps)
  then show ?thesis
    using assms by (simp add: nth_stacked partition_length_nat)
qed

lemma sample_lengths: "length sample_x = length sample_y"
  by (simp add: sample_x_def sample_y_def)

section \<open>Properties of train\_network\<close>

lemma logging_steps_Suc:
  "logging_steps (Suc n) =
     (if n mod 100 = 0 \<and> n > 0 then logging_steps n @ [n] else logging_steps n)"
  by (simp add: logging_steps_def)

lemma logging_steps_less: "s \<in> set (logging_steps n) \<Longrightarrow> s < n"
  by (simp add: logging_steps_def)

lemma accumulated_from_Suc:
  "accumulated_from (Suc n) = (if n mod 100 = 0 \<and> n > 0 then Suc n else accumulated_from n)"
  by (simp add: accumulated_from_def logging_steps_Suc)

lemma accumulated_from_0: "accumulated_from 0 = 0"
  by (simp add: accumulated_from_def logging_steps_def)

lemma accumulated_from_le: "accumulated_from n \<le> n"
proof (induction n)
  case 0
  then show ?case by (simp add: accumulated_from_0)
next
  case (Suc n)
  then show ?case by (simp add: accumulated_from_Suc)
qed

lemma epoch_loop_append:
  "epoch_loop add div100 zero (xs @ ys) training_loss training_losses =
     (case epoch_loop add div100 zero xs training_loss training_losses of
        (training_loss', training_losses') \<Rightarrow>
          epoch_loop add div100 zero ys training_loss' training_losses')"
  by (induction add div100 zero xs training_loss training_losses rule: epoch_loop.induct)
     (simp_all add: Let_def)

lemma logged_entries_snoc:
  "logged_entries add div100 zero (losses @ [l]) =
     (if length losses mod 100 = 0 \<and> length losses > 0
      then logged_entries add div100 zero losses
           @ [div100 (add (foldl add zero (drop (accumulated_from (length losses)) losses)) l)]
      else logged_entries add div100 zero losses)"
proof -
  define n where "n = length losses"
  define E where "E = (\<lambda>ls step.
    div100 (foldl add zero (drop (accumulated_from step) (take (Suc step) ls))))"
  have unf: "logged_entries add div100 zero ls = map (E ls) (logging_steps (length ls))" for ls
    by (simp add: logged_entries_def E_def)
  have old: "map (E (losses @ [l])) (logging_steps n) = map (E losses) (logging_steps n)"
  proof (rule map_cong [OF refl])
    fix s assume "s \<in> set (logging_steps n)"
    then have "s < length losses" unfolding n_def by (rule logging_steps_less)
    then show "E (losses @ [l]) s = E losses s" by (simp add: E_def)
  qed
  have new: "E (losses @ [l]) n = div100 (add (foldl add zero (drop (accumulated_from n) losses)) l)"
    using accumulated_from_le [of n] by (simp add: E_def n_def)
  have "logged_entries add div100 zero (losses @ [l]) = map (E (losses @ [l])) (logging_steps (Suc n))"
    by (simp add: unf n_def)
  also have "\<dots> = (if n mod 100 = 0 \<and> n > 0
                   then map (E (losses @ [l])) (logging_steps n) @ [E (losses @ [l]) n]
                   else map (E (losses @ [l])) (logging_steps n))"
    unfolding logging_steps_Suc by (rule if_split [THEN iffD2]) simp
  also have "\<dots> = (if n mod 100 = 0 \<and> n > 0 then map (E losses) (logging_steps n) @ [E (losses @ [l]) n]
                   else map (E losses) (logging_steps n))"
    unfolding old ..
  finally show ?thesis
    unfolding new unfolding n_def unf [of losses, symmetric] .
qed

lemma epoch_loop_entries:
  "epoch_loop add div100 zero (enumerate 0 losses) zero out =
     (foldl add zero (drop (accumulated_from (length losses)) losses),
      out @ logged_entries add div100 zero losses)"
proof (induction losses rule: rev_induct)
  case Nil
  then show ?case by (simp add: logged_entries_def logging_steps_def)
next
  case (snoc l losses)
  define n where "n = length losses"
  define acc where "acc = foldl add zero (drop (accumulated_from n) losses)"
  define old where "old = logged_entries add div100 zero losses"
  have en: "enumerate 0 (losses @ [l]) = enumerate 0 losses @ [(n, l)]"
    by (simp add: enumerate_append_eq n_def)
  have ih: "epoch_loop add div100 zero (enumerate 0 losses) zero out = (acc, out @ old)"
    unfolding acc_def old_def n_def by (rule snoc.IH)
  have run: "epoch_loop add div100 zero (enumerate 0 (losses @ [l])) zero out
      = (if n mod 100 = 0 \<and> n > 0 then (zero, (out @ old) @ [div100 (add acc l)])
         else (add acc l, out @ old))"
    unfolding en epoch_loop_append ih by (simp add: Let_def)
  have ent: "logged_entries add div100 zero (losses @ [l])
      = (if n mod 100 = 0 \<and> n > 0 then old @ [div100 (add acc l)] else old)"
    unfolding acc_def old_def n_def by (rule logged_entries_snoc)
  have len: "length (losses @ [l]) = Suc n" by (simp add: n_def)
  have accu: "foldl add zero (drop (accumulated_from (Suc n)) (losses @ [l]))
      = (if n mod 100 = 0 \<and> n > 0 then zero else add acc l)"
  proof (cases "n mod 100 = 0 \<and> n > 0")
    case True
    then have "accumulated_from (Suc n) = Suc n" by (simp add: accumulated_from_Suc)
    with True show ?thesis by (simp add: n_def)
  next
    case False
    then have "accumulated_from (Suc n) = accumulated_from n" by (auto simp: accumulated_from_Suc)
    moreover have "accumulated_from n \<le> length losses"
      unfolding n_def by (rule accumulated_from_le)
    ultimately show ?thesis using False by (auto simp: acc_def)
  qed
  show ?case
    unfolding run len accu ent by simp
qed

lemma train_loop_entries:
  "train_loop add div100 zero epochs out =
     out @ concat (map (logged_entries add div100 zero) epochs)"
  by (induction epochs arbitrary: out) (simp_all add: epoch_loop_entries Let_def)

lemma length_logging_steps: "length (logging_steps n) = (n - 1) div 100"
proof (induction n)
  case 0
  then show ?case by (simp add: logging_steps_def)
next
  case (Suc n)
  show ?case
  proof (cases "n mod 100 = 0 \<and> n > 0")
    case True
    then obtain k where k: "n = 100 * k" "k > 0" by (auto elim: dvdE simp: mod_eq_0_iff_dvd)
    then have "(n - 1) div 100 = k - 1"
      by (cases k) simp_all
    with k Suc True show ?thesis by (simp add: logging_steps_Suc)
  next
    case False
    have "n div 100 = (n - 1) div 100"
    proof (cases "n = 0")
      case True
      then show ?thesis by simp
    next
      case nz: False
      with False have m: "n mod 100 \<noteq> 0" by simp
      have "n = 100 * (n div 100) + n mod 100" by simp
      then have "n - 1 = 100 * (n div 100) + (n mod 100 - 1)" using m by linarith
      moreover have "n mod 100 - 1 < 100" using m by (simp add: less_imp_diff_less)
      ultimately have "(n - 1) div 100 = n div 100"
        by (metis div_mult_self2 div_less add.right_neutral add.commute zero_neq_numeral)
      then show ?thesis by simp
    qed
    with Suc False show ?thesis by (simp add: logging_steps_Suc)
  qed
qed

lemma logging_steps_early: "n \<le> 100 \<Longrightarrow> logging_steps n = []"
  by (auto simp: logging_steps_def filter_empty_conv)

lemma foldl_rat_add_ones: "foldl rat_add a (replicate n 1) = a + of_nat n"
  by (induction n arbitrary: a) (simp_all add: rat_add_def)

lemma logged_entries_sample:
  "logged_entries rat_add rat_div100 0 (replicate 101 1) = [101 / 100]"
proof -
  have s100: "logging_steps 100 = []" by (rule logging_steps_early) simp
  have "logging_steps (Suc 100) = [100]"
    unfolding logging_steps_Suc s100 by simp
  then have s101: "logging_steps 101 = [100]" by simp
  have a: "accumulated_from 100 = 0" by (simp add: accumulated_from_def s100)
  show ?thesis
    by (simp add: logged_entries_def s101 a foldl_rat_add_ones rat_div100_def rat_add_def)
qed

lemma logged_entries_short:
  "logged_entries rat_add rat_div100 0 (replicate 50 1) = []"
  by (simp add: logged_entries_def logging_steps_early)

section \<open>The claims\<close>

text \<open>
  Claim C1, as the code has it: for every size of at least 8 and every index \<open>i\<close> below
  the size, \<^verbatim>\<open>gen_data\<close> returns the drawn bits \<open>X\<close> and the labels \<open>Y\<close>, both lagged reads \<^verbatim>\<open>X[i-3]\<close> and
  \<^verbatim>\<open>X[i-8]\<close> succeed, and \<open>Y[i]\<close> is 1 exactly when the \<open>i\<close>-th uniform draw is at most
  the threshold, and 0 otherwise. The threshold starts at 0.5, goes up by 0.5 when
  \<^verbatim>\<open>X[i-3] == 1\<close> and down by 0.25 when \<^verbatim>\<open>X[i-8] == 1\<close>, so it is 1, 0.75, 0.5 or 0.25
  according to the two lagged bits; for a draw uniform on \<open>[0, 1)\<close> that threshold is
  the probability of the label 1.
\<close>

theorem gen_data_label_rule:
  assumes "8 \<le> sz" and "i < nat sz"
  shows "\<exists>X Y x3 x8. gen_data sz choice rand = Inr (X, Y)
      \<and> X = map choice [0..<nat sz]
      \<and> np_get X (int i - 3) = Inr x3 \<and> np_get X (int i - 8) = Inr x8
      \<and> (Y ! i = 1 \<longleftrightarrow> rand i \<le> lag_threshold x3 x8)
      \<and> (Y ! i = 0 \<longleftrightarrow> rand i > lag_threshold x3 x8)
      \<and> lag_threshold x3 x8 =
          (if x3 = 1 then (if x8 = 1 then 3 / 4 else 1) else (if x8 = 1 then 1 / 4 else 1 / 2))"
proof -
  let ?X = "map choice [0..<nat sz]"
  let ?lab = "\<lambda>i. label_of (?X ! lag_index (nat sz) i 3) (?X ! lag_index (nat sz) i 8) (rand i)"
  let ?Y = "map ?lab [0..<nat sz]"
  have len: "length ?X = nat sz" by simp
  have i: "i < length ?X" using assms(2) by simp
  have g: "gen_data sz choice rand = Inr (?X, ?Y)"
    using assms(1) by (rule gen_data_ok)
  have g3: "np_get ?X (int i - 3) = Inr (?X ! lag_index (nat sz) i 3)"
    using np_get_lag [of 3 ?X i] assms i by (simp del: nth_map)
  have g8: "np_get ?X (int i - 8) = Inr (?X ! lag_index (nat sz) i 8)"
    using np_get_lag [of 8 ?X i] assms i by (simp del: nth_map)
  have y: "?Y ! i = ?lab i" using assms(2) by (rule nth_map_upt0)
  have y1: "?Y ! i = 1 \<longleftrightarrow> rand i \<le> lag_threshold (?X ! lag_index (nat sz) i 3) (?X ! lag_index (nat sz) i 8)"
    unfolding y by (simp add: label_of_def)
  have y0: "?Y ! i = 0 \<longleftrightarrow> rand i > lag_threshold (?X ! lag_index (nat sz) i 3) (?X ! lag_index (nat sz) i 8)"
    unfolding y by (simp add: label_of_def not_le)
  have t: "lag_threshold a b =
          (if a = 1 then (if b = 1 then 3 / 4 else 1) else (if b = 1 then 1 / 4 else 1 / 2))" for a b
    by (simp add: lag_threshold_def)
  show ?thesis
    using g g3 g8 y1 y0 t by blast
qed

theorem gen_data_label_rule_witness:
  "(8::int) \<le> 8 \<and> (0::nat) < nat 8 \<and>
   (\<exists>X Y x3 x8. gen_data 8 (draws_of [1, 0, 1, 1, 0, 1, 0, 0] 0)
                    (draws_of [1 / 2, 3 / 4, 1 / 4, 9 / 10, 0, 1 / 3, 4 / 5, 3 / 5] 0) = Inr (X, Y)
      \<and> X = map (draws_of [1, 0, 1, 1, 0, 1, 0, 0] 0) [0..<nat 8]
      \<and> np_get X (int 0 - 3) = Inr x3 \<and> np_get X (int 0 - 8) = Inr x8
      \<and> (Y ! 0 = 1 \<longleftrightarrow> draws_of [1 / 2, 3 / 4, 1 / 4, 9 / 10, 0, 1 / 3, 4 / 5, 3 / 5] 0 0 \<le> lag_threshold x3 x8)
      \<and> (Y ! 0 = 0 \<longleftrightarrow> draws_of [1 / 2, 3 / 4, 1 / 4, 9 / 10, 0, 1 / 3, 4 / 5, 3 / 5] 0 0 > lag_threshold x3 x8)
      \<and> lag_threshold x3 x8 =
          (if x3 = 1 then (if x8 = 1 then 3 / 4 else 1) else (if x8 = 1 then 1 / 4 else 1 / 2)))"
proof -
  have h1: "(8::int) \<le> 8" by simp
  have h2: "(0::nat) < nat 8" by simp
  show ?thesis
    by (intro conjI h1 h2 gen_data_label_rule [OF h1 h2])
qed

text \<open>
  The rule does not hold from size 1 on: with size 1 the first iteration reads
  \<^verbatim>\<open>X[-3]\<close> on an array of one element, and the call raises \<^verbatim>\<open>IndexError\<close> instead of
  returning labels.
\<close>

theorem gen_data_size_one_counterexample:
  "gen_data 1 (draws_of [1] 0) (draws_of [1 / 2] 0) = Inl IndexError"
  by (simp add: gen_data_def gen_data_step_def np_get_def Let_def)

text \<open>
  Claim C2, as the code has it: for raw arrays of equal length and positive
  \<^verbatim>\<open>batch_size\<close> and \<^verbatim>\<open>num_steps\<close>, the \<open>x\<close> components of all yielded pairs together
  hold \<open>batch_size * num_steps * ((len // batch_size) // num_steps)\<close> elements, and so
  do the \<open>y\<close> components. That number never exceeds the length of the raw array and
  equals it exactly when \<open>batch_size * num_steps\<close> divides the length; the elements
  beyond the last full window are dropped.
\<close>

theorem gen_batch_element_count:
  assumes "length raw_x = length raw_y" and "1 \<le> batch_size" and "1 \<le> num_steps"
  shows "\<exists>batches. gen_batch (raw_x, raw_y) batch_size num_steps = Inr batches
      \<and> yielded_x batches
          = nat batch_size * nat num_steps * (length raw_x div nat batch_size div nat num_steps)
      \<and> yielded_y batches
          = nat batch_size * nat num_steps * (length raw_y div nat batch_size div nat num_steps)
      \<and> yielded_x batches \<le> length raw_x \<and> yielded_y batches \<le> length raw_y
      \<and> (yielded_x batches = length raw_x \<longleftrightarrow> nat batch_size * nat num_steps dvd length raw_x)
      \<and> (yielded_y batches = length raw_y \<longleftrightarrow> nat batch_size * nat num_steps dvd length raw_y)"
proof -
  define b where "b = nat batch_size"
  define s where "s = nat num_steps"
  define n where "n = length raw_x"
  define e where "e = n div b div s"
  let ?f = "\<lambda>i. (columns (stacked raw_x (int (length raw_x) div batch_size) batch_size)
                        (int i * num_steps) ((int i + 1) * num_steps),
                  columns (stacked raw_y (int (length raw_y) div batch_size) batch_size)
                        (int i * num_steps) ((int i + 1) * num_steps))"
  have pos: "0 < b * s" using assms(2,3) by (simp add: b_def s_def)
  have ny: "length raw_y = n" using assms(1) by (simp add: n_def)
  have g: "gen_batch (raw_x, raw_y) batch_size num_steps = Inr (map ?f [0..<e])"
    unfolding e_def n_def b_def s_def using assms by (intro gen_batch_windows_nat) simp_all
  have shp: "has_shape (fst (?f i)) b s \<and> has_shape (snd (?f i)) b s" if "i < e" for i
  proof -
    have ix: "i < length raw_x div nat batch_size div nat num_steps"
      and iy: "i < length raw_y div nat batch_size div nat num_steps"
      using that assms(1) by (simp_all add: e_def n_def b_def s_def)
    have "has_shape (fst (?f i)) b s"
      unfolding fst_conv b_def s_def using assms(2,3) ix by (rule window_shape)
    moreover have "has_shape (snd (?f i)) b s"
      unfolding snd_conv b_def s_def using assms(2,3) iy by (rule window_shape)
    ultimately show ?thesis ..
  qed
  have elx: "elements (fst (?f i)) = b * s" if "i < e" for i
    using shp [OF that] by (intro elements_shape) simp
  have ely: "elements (snd (?f i)) = b * s" if "i < e" for i
    using shp [OF that] by (intro elements_shape) simp
  have cx: "yielded_x (map ?f [0..<e]) = e * (b * s)"
  proof -
    have "\<forall>p \<in> set (map ?f [0..<e]). (\<lambda>(x, y). elements x) p = b * s"
      using elx by auto
    then have "sum_list (map (\<lambda>(x, y). elements x) (map ?f [0..<e])) = length (map ?f [0..<e]) * (b * s)"
      by (rule sum_list_const)
    then show ?thesis by (simp add: yielded_x_def)
  qed
  have cy: "yielded_y (map ?f [0..<e]) = e * (b * s)"
  proof -
    have "\<forall>p \<in> set (map ?f [0..<e]). (\<lambda>(x, y). elements y) p = b * s"
      using ely by auto
    then have "sum_list (map (\<lambda>(x, y). elements y) (map ?f [0..<e])) = length (map ?f [0..<e]) * (b * s)"
      by (rule sum_list_const)
    then show ?thesis by (simp add: yielded_y_def)
  qed
  have e2: "e = n div (b * s)" by (simp add: e_def div_mult2_eq)
  have le: "e * (b * s) \<le> n" unfolding e2 by simp
  have iff: "e * (b * s) = n \<longleftrightarrow> b * s dvd n"
  proof
    assume "e * (b * s) = n"
    then show "b * s dvd n" by (metis dvd_triv_right)
  next
    assume "b * s dvd n"
    then show "e * (b * s) = n" unfolding e2 by simp
  qed
  have vx: "yielded_x (map ?f [0..<e]) = b * s * e" using cx by (simp add: mult.commute)
  have vy: "yielded_y (map ?f [0..<e]) = b * s * e" using cy by (simp add: mult.commute)
  have "gen_batch (raw_x, raw_y) batch_size num_steps = Inr (map ?f [0..<e])
      \<and> yielded_x (map ?f [0..<e]) = b * s * e
      \<and> yielded_y (map ?f [0..<e]) = b * s * e
      \<and> yielded_x (map ?f [0..<e]) \<le> n \<and> yielded_y (map ?f [0..<e]) \<le> n
      \<and> (yielded_x (map ?f [0..<e]) = n \<longleftrightarrow> b * s dvd n)
      \<and> (yielded_y (map ?f [0..<e]) = n \<longleftrightarrow> b * s dvd n)"
    using g vx vy le iff cx cy by simp
  then show ?thesis
    unfolding e_def b_def s_def ny [symmetric] unfolding n_def assms(1) [symmetric]
    by (intro exI)
qed

theorem gen_batch_element_count_witness:
  "length [1, 0, 1, 1, 0, 1, 0 :: int] = length [0, 1, 1, 0, 1, 1, 0 :: int]
   \<and> (1::int) \<le> 3 \<and> (1::int) \<le> 2
   \<and> (\<exists>batches. gen_batch ([1, 0, 1, 1, 0, 1, 0], [0, 1, 1, 0, 1, 1, 0]) 3 2 = Inr batches
      \<and> yielded_x batches = nat 3 * nat 2 * (length [1, 0, 1, 1, 0, 1, 0 :: int] div nat 3 div nat 2)
      \<and> yielded_y batches = nat 3 * nat 2 * (length [0, 1, 1, 0, 1, 1, 0 :: int] div nat 3 div nat 2)
      \<and> yielded_x batches \<le> length [1, 0, 1, 1, 0, 1, 0 :: int]
      \<and> yielded_y batches \<le> length [0, 1, 1, 0, 1, 1, 0 :: int]
      \<and> (yielded_x batches = length [1, 0, 1, 1, 0, 1, 0 :: int] \<longleftrightarrow> nat 3 * nat 2 dvd length [1, 0, 1, 1, 0, 1, 0 :: int])
      \<and> (yielded_y batches = length [0, 1, 1, 0, 1, 1, 0 :: int] \<longleftrightarrow> nat 3 * nat 2 dvd length [0, 1, 1, 0, 1, 1, 0 :: int]))"
proof -
  have h1: "length [1, 0, 1, 1, 0, 1, 0 :: int] = length [0, 1, 1, 0, 1, 1, 0 :: int]" by simp
  have h2: "(1::int) \<le> 3" by simp
  have h3: "(1::int) \<le> 2" by simp
  show ?thesis
    by (intro conjI h1 h2 h3 gen_batch_element_count [OF h1 h2 h3])
qed

text \<open>
  Three raw elements, \<^verbatim>\<open>batch_size = 2\<close> and \<^verbatim>\<open>num_steps = 1\<close>: one pair is yielded,
  with two elements in \<open>x\<close> and two in \<open>y\<close>, while each raw array has three.
\<close>

theorem gen_batch_remainder_counterexample:
  "gen_batch ([1, 0, 1], [0, 1, 1]) 2 1 = Inr [([[1], [0]], [[0], [1]])]
   \<and> yielded_x [([[1], [0]], [[0], [1]])] = 2 \<and> yielded_y [([[1], [0]], [[0], [1]])] = 2
   \<and> length [1, 0, 1 :: int] = 3 \<and> length [0, 1, 1 :: int] = 3"
  by (intro conjI) (code_simp+)

text \<open>
  Claim C3: for raw arrays of equal length and positive \<^verbatim>\<open>batch_size\<close> and
  \<^verbatim>\<open>num_steps\<close>, \<^verbatim>\<open>gen_batch\<close> raises nothing and every pair \<open>(x, y)\<close> it yields has
  the shape \<open>[batch_size, num_steps]\<close>, \<open>x\<close> and \<open>y\<close> alike.
\<close>

theorem gen_batch_fixed_shape:
  assumes "length raw_x = length raw_y" and "1 \<le> batch_size" and "1 \<le> num_steps"
  shows "\<exists>batches. gen_batch (raw_x, raw_y) batch_size num_steps = Inr batches
      \<and> (\<forall>(x, y) \<in> set batches.
            has_shape x (nat batch_size) (nat num_steps) \<and> has_shape y (nat batch_size) (nat num_steps))"
proof -
  let ?e = "length raw_x div nat batch_size div nat num_steps"
  let ?f = "\<lambda>i. (columns (stacked raw_x (int (length raw_x) div batch_size) batch_size)
                        (int i * num_steps) ((int i + 1) * num_steps),
                  columns (stacked raw_y (int (length raw_y) div batch_size) batch_size)
                        (int i * num_steps) ((int i + 1) * num_steps))"
  have g: "gen_batch (raw_x, raw_y) batch_size num_steps = Inr (map ?f [0..<?e])"
    using assms by (intro gen_batch_windows_nat) simp_all
  have "has_shape (fst (?f i)) (nat batch_size) (nat num_steps)
      \<and> has_shape (snd (?f i)) (nat batch_size) (nat num_steps)" if "i < ?e" for i
  proof -
    have iy: "i < length raw_y div nat batch_size div nat num_steps" using that assms(1) by simp
    have "has_shape (fst (?f i)) (nat batch_size) (nat num_steps)"
      unfolding fst_conv using assms(2,3) that by (rule window_shape)
    moreover have "has_shape (snd (?f i)) (nat batch_size) (nat num_steps)"
      unfolding snd_conv using assms(2,3) iy by (rule window_shape)
    ultimately show ?thesis ..
  qed
  then have "\<forall>(x, y) \<in> set (map ?f [0..<?e]).
      has_shape x (nat batch_size) (nat num_steps) \<and> has_shape y (nat batch_size) (nat num_steps)"
    by auto
  with g show ?thesis by blast
qed

theorem gen_batch_fixed_shape_witness:
  "length [1, 0, 1, 1, 0, 1, 0, 0, 1, 1 :: int] = length [0, 1, 1, 0, 1, 1, 0, 0, 1, 1 :: int]
   \<and> (1::int) \<le> 2 \<and> (1::int) \<le> 2
   \<and> (\<exists>batches. gen_batch ([1, 0, 1, 1, 0, 1, 0, 0, 1, 1], [0, 1, 1, 0, 1, 1, 0, 0, 1, 1]) 2 2 = Inr batches
        \<and> (\<forall>(x, y) \<in> set batches. has_shape x (nat 2) (nat 2) \<and> has_shape y (nat 2) (nat 2)))
   \<and> gen_batch ([1, 0, 1, 1, 0, 1, 0, 0, 1, 1], [0, 1, 1, 0, 1, 1, 0, 0, 1, 1]) 2 2
        = Inr [([[1, 0], [1, 0]], [[0, 1], [1, 0]]), ([[1, 1], [0, 1]], [[1, 0], [0, 1]])]"
proof -
  have h1: "length [1, 0, 1, 1, 0, 1, 0, 0, 1, 1 :: int] = length [0, 1, 1, 0, 1, 1, 0, 0, 1, 1 :: int]"
    by simp
  have h2: "(1::int) \<le> 2" by simp
  have v: "gen_batch ([1, 0, 1, 1, 0, 1, 0, 0, 1, 1], [0, 1, 1, 0, 1, 1, 0, 0, 1, 1]) 2 2
        = Inr [([[1, 0], [1, 0]], [[0, 1], [1, 0]]), ([[1, 1], [0, 1]], [[1, 0], [0, 1]])]"
    by code_simp
  show ?thesis
    by (intro conjI h1 h2 v gen_batch_fixed_shape [OF h1 h2 h2])
qed

text \<open>
  Claim C4, as the code has it: for raw arrays of equal length and positive
  \<^verbatim>\<open>batch_size\<close> and \<^verbatim>\<open>num_steps\<close>, with \<open>bpl = len(raw_x) // batch_size\<close>, row \<open>r\<close> of
  each stacked matrix is the contiguous slice \<^verbatim>\<open>raw[bpl*r : bpl*(r+1)]\<close>, of full length
  \<open>bpl\<close>, stored as int32; read back it is the slice itself when the raw values fit in
  a signed 32-bit integer. The generator yields \<open>bpl // num_steps\<close> pairs, and the
  \<open>i\<close>-th pair, in increasing order of \<open>i\<close>, consists of the columns \<open>i * num_steps\<close> to
  \<open>(i + 1) * num_steps - 1\<close> of the two stacked matrices.
\<close>

theorem gen_batch_windows:
  assumes "length raw_x = length raw_y" and "1 \<le> batch_size" and "1 \<le> num_steps"
  shows "\<exists>bpl data_x data_y batches.
      bpl = int (length raw_x) div batch_size
    \<and> stack_partitions (raw_x, raw_y) batch_size = Inr (bpl, data_x, data_y)
    \<and> length data_x = nat batch_size \<and> length data_y = nat batch_size
    \<and> (\<forall>r < nat batch_size.
          data_x ! r = map astype_int32 (py_slice raw_x (bpl * int r) (bpl * (int r + 1)))
        \<and> data_y ! r = map astype_int32 (py_slice raw_y (bpl * int r) (bpl * (int r + 1)))
        \<and> length (py_slice raw_x (bpl * int r) (bpl * (int r + 1))) = nat bpl
        \<and> length (py_slice raw_y (bpl * int r) (bpl * (int r + 1))) = nat bpl
        \<and> (list_all fits_int32 raw_x \<longrightarrow>
              map sint (data_x ! r) = py_slice raw_x (bpl * int r) (bpl * (int r + 1)))
        \<and> (list_all fits_int32 raw_y \<longrightarrow>
              map sint (data_y ! r) = py_slice raw_y (bpl * int r) (bpl * (int r + 1))))
    \<and> gen_batch (raw_x, raw_y) batch_size num_steps = Inr batches
    \<and> length batches = nat (bpl div num_steps)
    \<and> (\<forall>i < length batches.
          batches ! i = (columns data_x (int i * num_steps) ((int i + 1) * num_steps),
                         columns data_y (int i * num_steps) ((int i + 1) * num_steps))
        \<and> (\<forall>r < nat batch_size. \<forall>c < nat num_steps.
              fst (batches ! i) ! r ! c = data_x ! r ! (i * nat num_steps + c)
            \<and> snd (batches ! i) ! r ! c = data_y ! r ! (i * nat num_steps + c)))"
proof -
  define p where "p = int (length raw_x) div batch_size"
  define e where "e = length raw_x div nat batch_size div nat num_steps"
  let ?dx = "stacked raw_x p batch_size"
  let ?dy = "stacked raw_y p batch_size"
  let ?f = "\<lambda>i. (columns ?dx (int i * num_steps) ((int i + 1) * num_steps),
                  columns ?dy (int i * num_steps) ((int i + 1) * num_steps))"
  have py: "p = int (length raw_y) div batch_size" using assms(1) by (simp add: p_def)
  have ey: "e = length raw_y div nat batch_size div nat num_steps" using assms(1) by (simp add: e_def)
  have sp: "stack_partitions (raw_x, raw_y) batch_size = Inr (p, ?dx, ?dy)"
    unfolding p_def using assms(1,2) by (intro stack_partitions_stacked) simp_all
  have rows: "?dx ! r = map astype_int32 (py_slice raw_x (p * int r) (p * (int r + 1)))
        \<and> ?dy ! r = map astype_int32 (py_slice raw_y (p * int r) (p * (int r + 1)))
        \<and> length (py_slice raw_x (p * int r) (p * (int r + 1))) = nat p
        \<and> length (py_slice raw_y (p * int r) (p * (int r + 1))) = nat p
        \<and> (list_all fits_int32 raw_x \<longrightarrow>
              map sint (?dx ! r) = py_slice raw_x (p * int r) (p * (int r + 1)))
        \<and> (list_all fits_int32 raw_y \<longrightarrow>
              map sint (?dy ! r) = py_slice raw_y (p * int r) (p * (int r + 1)))"
    if r: "r < nat batch_size" for r
  proof -
    have lx: "length (py_slice raw_x (p * int r) (p * (int r + 1))) = nat p"
      unfolding p_def using assms(2) r by (rule slice_full_length)
    have ly: "length (py_slice raw_y (p * int r) (p * (int r + 1))) = nat p"
      unfolding py using assms(2) r by (rule slice_full_length)
    show ?thesis
      using r lx ly by (simp add: nth_stacked sint_stored_slice del: map_map)
  qed
  have e_eq: "nat (p div num_steps) = e"
    unfolding p_def e_def using assms(2,3) by (rule epoch_size_nat)
  have g: "gen_batch (raw_x, raw_y) batch_size num_steps = Inr (map ?f [0..<e])"
    unfolding e_def p_def py [unfolded p_def, symmetric]
    using assms by (simp add: gen_batch_windows_nat)
  have cols: "fst (map ?f [0..<e] ! i) ! r ! c = ?dx ! r ! (i * nat num_steps + c)
            \<and> snd (map ?f [0..<e] ! i) ! r ! c = ?dy ! r ! (i * nat num_steps + c)"
    if "i < e" "r < nat batch_size" "c < nat num_steps" for i r c
  proof -
    have ix: "i < length raw_x div nat batch_size div nat num_steps" using that(1) by (simp add: e_def)
    have iy: "i < length raw_y div nat batch_size div nat num_steps" using that(1) by (simp add: ey)
    have "columns ?dx (int i * num_steps) ((int i + 1) * num_steps) ! r ! c = ?dx ! r ! (i * nat num_steps + c)"
      unfolding p_def using assms(2,3) ix that(2,3) by (rule window_col)
    moreover have "columns ?dy (int i * num_steps) ((int i + 1) * num_steps) ! r ! c = ?dy ! r ! (i * nat num_steps + c)"
      unfolding py using assms(2,3) iy that(2,3) by (rule window_col)
    ultimately show ?thesis using that(1) by simp
  qed
  have all: "\<forall>i < length (map ?f [0..<e]).
          map ?f [0..<e] ! i = (columns ?dx (int i * num_steps) ((int i + 1) * num_steps),
                         columns ?dy (int i * num_steps) ((int i + 1) * num_steps))
        \<and> (\<forall>r < nat batch_size. \<forall>c < nat num_steps.
              fst (map ?f [0..<e] ! i) ! r ! c = ?dx ! r ! (i * nat num_steps + c)
            \<and> snd (map ?f [0..<e] ! i) ! r ! c = ?dy ! r ! (i * nat num_steps + c))"
  proof (intro allI impI conjI)
    fix i assume "i < length (map ?f [0..<e])"
    then have i: "i < e" by simp
    then show "map ?f [0..<e] ! i = (columns ?dx (int i * num_steps) ((int i + 1) * num_steps),
                         columns ?dy (int i * num_steps) ((int i + 1) * num_steps))"
      by simp
    fix r c assume rc: "r < nat batch_size" "c < nat num_steps"
    show "fst (map ?f [0..<e] ! i) ! r ! c = ?dx ! r ! (i * nat num_steps + c)"
      using cols [OF i rc] by (rule conjunct1)
    show "snd (map ?f [0..<e] ! i) ! r ! c = ?dy ! r ! (i * nat num_steps + c)"
      using cols [OF i rc] by (rule conjunct2)
  qed
  have len: "length (map ?f [0..<e]) = nat (p div num_steps)" using e_eq by simp
  have lx: "length ?dx = nat batch_size" and ly: "length ?dy = nat batch_size"
    by (simp_all add: length_stacked)
  have rows_all: "\<forall>r < nat batch_size.
          ?dx ! r = map astype_int32 (py_slice raw_x (p * int r) (p * (int r + 1)))
        \<and> ?dy ! r = map astype_int32 (py_slice raw_y (p * int r) (p * (int r + 1)))
        \<and> length (py_slice raw_x (p * int r) (p * (int r + 1))) = nat p
        \<and> length (py_slice raw_y (p * int r) (p * (int r + 1))) = nat p
        \<and> (list_all fits_int32 raw_x \<longrightarrow>
              map sint (?dx ! r) = py_slice raw_x (p * int r) (p * (int r + 1)))
        \<and> (list_all fits_int32 raw_y \<longrightarrow>
              map sint (?dy ! r) = py_slice raw_y (p * int r) (p * (int r + 1)))"
    using rows by blast
  show ?thesis
    apply (rule exI [of _ p])
    apply (rule exI [of _ ?dx])
    apply (rule exI [of _ ?dy])
    apply (rule exI [of _ "map ?f [0..<e]"])
    apply (intro conjI)
    apply (rule p_def)
    apply (rule sp)
    apply (rule lx)
    apply (rule ly)
    apply (rule rows_all)
    apply (rule g)
    apply (rule len)
    apply (rule all)
    done
qed

theorem gen_batch_windows_witness:
  "length sample_x = length sample_y \<and> (1::int) \<le> 2 \<and> (1::int) \<le> 2 \<and>
   (\<exists>bpl data_x data_y batches.
      bpl = int (length sample_x) div 2
    \<and> stack_partitions (sample_x, sample_y) 2 = Inr (bpl, data_x, data_y)
    \<and> length data_x = nat 2 \<and> length data_y = nat 2
    \<and> (\<forall>r < nat 2.
          data_x ! r = map astype_int32 (py_slice sample_x (bpl * int r) (bpl * (int r + 1)))
        \<and> data_y ! r = map astype_int32 (py_slice sample_y (bpl * int r) (bpl * (int r + 1)))
        \<and> length (py_slice sample_x (bpl * int r) (bpl * (int r + 1))) = nat bpl
        \<and> length (py_slice sample_y (bpl * int r) (bpl * (int r + 1))) = nat bpl
        \<and> (list_all fits_int32 sample_x \<longrightarrow>
              map sint (data_x ! r) = py_slice sample_x (bpl * int r) (bpl * (int r + 1)))
        \<and> (list_all fits_int32 sample_y \<longrightarrow>
              map sint (data_y ! r) = py_slice sample_y (bpl * int r) (bpl * (int r + 1))))
    \<and> gen_batch (sample_x, sample_y) 2 2 = Inr batches
    \<and> length batches = nat (bpl div 2)
    \<and> (\<forall>i < length batches.
          batches ! i = (columns data_x (int i * 2) ((int i + 1) * 2),
                         columns data_y (int i * 2) ((int i + 1) * 2))
        \<and> (\<forall>r < nat 2. \<forall>c < nat 2.
              fst (batches ! i) ! r ! c = data_x ! r ! (i * nat 2 + c)
            \<and> snd (batches ! i) ! r ! c = data_y ! r ! (i * nat 2 + c))))
   \<and> list_all fits_int32 sample_x \<and> list_all fits_int32 sample_y
   \<and> stack_partitions (sample_x, sample_y) 2
        = Inr (5, [[1, 0, 1, 1, 0], [1, 0, 0, 1, 1]], [[0, 1, 1, 0, 1], [1, 0, 0, 1, 1]])
   \<and> gen_batch (sample_x, sample_y) 2 2
        = Inr [([[1, 0], [1, 0]], [[0, 1], [1, 0]]), ([[1, 1], [0, 1]], [[1, 0], [0, 1]])]"
proof -
  have h2: "(1::int) \<le> 2" by simp
  have fx: "list_all fits_int32 sample_x" by (simp add: sample_x_def fits_int32_def)
  have fy: "list_all fits_int32 sample_y" by (simp add: sample_y_def fits_int32_def)
  have sp: "stack_partitions (sample_x, sample_y) 2
        = Inr (5, [[1, 0, 1, 1, 0], [1, 0, 0, 1, 1]], [[0, 1, 1, 0, 1], [1, 0, 0, 1, 1]])"
    by code_simp
  have g: "gen_batch (sample_x, sample_y) 2 2
        = Inr [([[1, 0], [1, 0]], [[0, 1], [1, 0]]), ([[1, 1], [0, 1]], [[1, 0], [0, 1]])]"
    by code_simp
  show ?thesis
    by (intro conjI sample_lengths h2 fx fy sp g gen_batch_windows [OF sample_lengths h2 h2])
qed

text \<open>
  A raw value outside the int32 range is not kept: the row that stores the slice
  \<open>[2147483648]\<close> reads back as \<open>[-2147483648]\<close>.
\<close>

theorem gen_batch_int32_row_counterexample:
  "stack_partitions ([2147483648], [0]) 1 = Inr (1, [[astype_int32 2147483648]], [[0]])
   \<and> sint (astype_int32 2147483648) = - 2147483648
   \<and> py_slice [2147483648 :: int] (1 * int 0) (1 * (int 0 + 1)) = [2147483648]"
  by (intro conjI) (code_simp+)

text \<open>
  Claim C5, as the code has it: for every size of at least 8, and draws of
  \<^verbatim>\<open>np.random.choice(2, ...)\<close> that are 0 or 1, \<^verbatim>\<open>gen_data\<close> returns two arrays \<open>X\<close> and
  \<open>Y\<close> of the length \<open>size\<close> whose elements are all 0 or 1.
\<close>

theorem gen_data_bits:
  assumes "8 \<le> sz" and "\<forall>k < nat sz. choice k = 0 \<or> choice k = 1"
  shows "\<exists>X Y. gen_data sz choice rand = Inr (X, Y)
      \<and> X = map choice [0..<nat sz]
      \<and> length X = nat sz \<and> length Y = nat sz
      \<and> set X \<subseteq> {0, 1} \<and> set Y \<subseteq> {0, 1}"
proof -
  let ?X = "map choice [0..<nat sz]"
  let ?lab = "\<lambda>i. label_of (?X ! lag_index (nat sz) i 3) (?X ! lag_index (nat sz) i 8) (rand i)"
  let ?Y = "map ?lab [0..<nat sz]"
  have g: "gen_data sz choice rand = Inr (?X, ?Y)"
    using assms(1) by (rule gen_data_ok)
  have x: "set ?X \<subseteq> {0, 1}" using assms(2) by auto
  have y: "set ?Y \<subseteq> {0, 1}" by (auto simp: label_of_def)
  have "length ?X = nat sz" "length ?Y = nat sz" by simp_all
  with g x y show ?thesis by blast
qed

theorem gen_data_bits_witness:
  "(8::int) \<le> 9 \<and>
   (\<exists>X Y. gen_data 9 (draws_of [1, 0, 1, 1, 0, 1, 0, 0, 1] 0)
              (draws_of [1 / 2, 3 / 4, 1 / 4, 9 / 10, 0, 1 / 3, 4 / 5, 3 / 5, 1 / 5] 0) = Inr (X, Y)
      \<and> X = map (draws_of [1, 0, 1, 1, 0, 1, 0, 0, 1] 0) [0..<nat 9]
      \<and> length X = nat 9 \<and> length Y = nat 9
      \<and> set X \<subseteq> {0, 1} \<and> set Y \<subseteq> {0, 1})"
proof -
  have h1: "(8::int) \<le> 9" by simp
  have h2: "\<forall>k < nat 9. draws_of [1, 0, 1, 1, 0, 1, 0, 0, 1] (0::int) k = 0
                \<or> draws_of [1, 0, 1, 1, 0, 1, 0, 0, 1] (0::int) k = 1"
  proof (intro allI impI)
    fix k :: nat
    show "draws_of [1, 0, 1, 1, 0, 1, 0, 0, 1] (0::int) k = 0
                \<or> draws_of [1, 0, 1, 1, 0, 1, 0, 0, 1] (0::int) k = 1"
      by (rule draws_of_bits) simp
  qed
  show ?thesis
    by (intro conjI h1 gen_data_bits [OF h1 h2])
qed

text \<open>
  With size 7 no pair of arrays is returned: the lag-8 read of the first iteration,
  \<^verbatim>\<open>X[-8]\<close>, is out of range.
\<close>

theorem gen_data_size_seven_counterexample:
  "gen_data 7 (draws_of [1, 0, 1, 1, 0, 1, 0] 0) (draws_of [1 / 2] 0) = Inl IndexError"
  by (rule gen_data_small) simp_all

text \<open>
  Claim C6: with the losses that the session returns as inputs, \<^verbatim>\<open>train_network\<close>
  returns, epoch after epoch and in order, one entry for every step that is a positive
  multiple of 100: the loss accumulated since the previous such step (or since the
  start of the epoch), divided by 100. An epoch of \<open>n\<close> steps contributes
  \<open>(n - 1) div 100\<close> entries. A single step appends an entry and resets the accumulator
  to zero exactly when \<^verbatim>\<open>step % 100 == 0 and step > 0\<close>; any other step only adds its
  loss to the accumulator.
\<close>

theorem train_network_logs_periodically:
  "train_network add div100 zero epochs = concat (map (logged_entries add div100 zero) epochs)
   \<and> length (train_network add div100 zero epochs)
       = sum_list (map (\<lambda>losses. (length losses - 1) div 100) epochs)
   \<and> epoch_loop add div100 zero [(step, step_loss)] training_loss training_losses
       = (if step mod 100 = 0 \<and> step > 0
          then (zero, training_losses @ [div100 (add training_loss step_loss)])
          else (add training_loss step_loss, training_losses))"
proof -
  have a: "train_network add div100 zero epochs = concat (map (logged_entries add div100 zero) epochs)"
    by (simp add: train_network_def train_loop_entries)
  have "length (concat (map (logged_entries add div100 zero) epochs))
      = sum_list (map (\<lambda>losses. (length losses - 1) div 100) epochs)"
    by (simp add: length_concat logged_entries_def length_logging_steps comp_def)
  with a show ?thesis by (simp add: Let_def)
qed

theorem train_network_logs_periodically_witness:
  "train_network rat_add rat_div100 0 [replicate 101 1, replicate 50 1]
     = concat (map (logged_entries rat_add rat_div100 0) [replicate 101 1, replicate 50 1])
   \<and> concat (map (logged_entries rat_add rat_div100 0) [replicate 101 1, replicate 50 1])
     = [101 / 100]"
proof -
  have v: "concat (map (logged_entries rat_add rat_div100 0) [replicate 101 1, replicate 50 1])
     = [101 / 100]"
    by (simp add: logged_entries_sample logged_entries_short)
  show ?thesis
    by (intro conjI v train_network_logs_periodically [THEN conjunct1])
qed

text \<open>
  Claim C7, as the code has it: for a size that is not negative, \<^verbatim>\<open>gen_data\<close> raises
  no exception exactly when the size is 0 or at least 8; and for raw arrays of equal
  length, \<^verbatim>\<open>batch_size >= 1\<close> and \<^verbatim>\<open>num_steps >= 1\<close>, \<^verbatim>\<open>gen_batch\<close> raises no exception.
\<close>

theorem data_functions_raise_nothing:
  "(0 \<le> sz \<longrightarrow> ((\<exists>res. gen_data sz choice rand = Inr res) \<longleftrightarrow> sz = 0 \<or> 8 \<le> sz))
   \<and> (length raw_x = length raw_y \<and> 1 \<le> batch_size \<and> 1 \<le> num_steps \<longrightarrow>
        (\<exists>batches. gen_batch (raw_x, raw_y) batch_size num_steps = Inr batches))"
proof (intro conjI impI)
  assume nonneg: "0 \<le> sz"
  show "(\<exists>res. gen_data sz choice rand = Inr res) \<longleftrightarrow> sz = 0 \<or> 8 \<le> sz"
  proof
    assume ok: "\<exists>res. gen_data sz choice rand = Inr res"
    show "sz = 0 \<or> 8 \<le> sz"
    proof (rule ccontr)
      assume "\<not> (sz = 0 \<or> 8 \<le> sz)"
      with nonneg have "1 \<le> sz" "sz \<le> 7" by simp_all
      then have "gen_data sz choice rand = Inl IndexError" by (rule gen_data_small)
      with ok show False by simp
    qed
  next
    assume "sz = 0 \<or> 8 \<le> sz"
    then show "\<exists>res. gen_data sz choice rand = Inr res"
      using gen_data_empty [of choice rand] gen_data_ok [of sz choice rand] by auto
  qed
next
  assume "length raw_x = length raw_y \<and> 1 \<le> batch_size \<and> 1 \<le> num_steps"
  then have "length raw_y = length raw_x" "1 \<le> batch_size" "1 \<le> num_steps" by simp_all
  then show "\<exists>batches. gen_batch (raw_x, raw_y) batch_size num_steps = Inr batches"
    by (simp add: gen_batch_windows_nat)
qed

theorem data_functions_raise_nothing_witness:
  "(0::int) \<le> 8 \<and> ((8::int) = 0 \<or> (8::int) \<le> 8)
   \<and> (\<exists>res. gen_data 8 (draws_of [1, 0, 1, 1, 0, 1, 0, 0] 0)
                (draws_of [1 / 2, 3 / 4, 1 / 4, 9 / 10, 0, 1 / 3, 4 / 5, 3 / 5] 0) = Inr res)
   \<and> length sample_x = length sample_y \<and> (1::int) \<le> 3 \<and> (1::int) \<le> 4
   \<and> (\<exists>batches. gen_batch (sample_x, sample_y) 3 4 = Inr batches)"
proof -
  have h0: "(0::int) \<le> 8" and h1: "(8::int) = 0 \<or> (8::int) \<le> 8"
    and h3: "(1::int) \<le> 3" and h4: "(1::int) \<le> 4" by simp_all
  note t = data_functions_raise_nothing [of 8 "draws_of [1, 0, 1, 1, 0, 1, 0, 0] 0"
      "draws_of [1 / 2, 3 / 4, 1 / 4, 9 / 10, 0, 1 / 3, 4 / 5, 3 / 5] 0" sample_x sample_y 3 4]
  have a: "\<exists>res. gen_data 8 (draws_of [1, 0, 1, 1, 0, 1, 0, 0] 0)
                (draws_of [1 / 2, 3 / 4, 1 / 4, 9 / 10, 0, 1 / 3, 4 / 5, 3 / 5] 0) = Inr res"
    using t h0 h1 by blast
  have b: "\<exists>batches. gen_batch (sample_x, sample_y) 3 4 = Inr batches"
    using t sample_lengths h3 h4 by blast
  show ?thesis
    by (intro conjI h0 h1 h3 h4 sample_lengths a b)
qed

text \<open>
  With size 3 the read \<^verbatim>\<open>X[-3]\<close> of the first iteration succeeds and the read
  \<^verbatim>\<open>X[-8]\<close> raises \<^verbatim>\<open>IndexError\<close>.
\<close>

theorem gen_data_size_three_counterexample:
  "(0::int) \<le> 3 \<and> gen_data 3 (draws_of [1, 0, 1] 0) (draws_of [1 / 2] 0) = Inl IndexError"
  by (intro conjI) (code_simp+)

text \<open>
  Claim C8: for every size of at least 8 and every index \<open>i\<close> below 8, the lag-8 read
  \<^verbatim>\<open>X[i-8]\<close> wraps around to \<open>X[size+i-8]\<close>; the lag-3 read \<^verbatim>\<open>X[i-3]\<close> wraps around to
  \<open>X[size+i-3]\<close> for \<open>i\<close> below 3 and is \<open>X[i-3]\<close> from 3 on. \<open>X\<close> is the array of the drawn
  bits, so these elements are the draws at the wrapped indices, and the label \<open>Y[i]\<close> is
  computed from them and the \<open>i\<close>-th uniform draw; the wrapped index lies among the last
  8 of \<open>X\<close>.
\<close>

theorem gen_data_wraps_at_start:
  assumes "8 \<le> sz" and "i < 8"
  shows "\<exists>X Y. gen_data sz choice rand = Inr (X, Y)
      \<and> X = map choice [0..<nat sz] \<and> length X = nat sz
      \<and> np_get X (int i - 3) = Inr (X ! (if i < 3 then nat sz + i - 3 else i - 3))
      \<and> np_get X (int i - 8) = Inr (X ! (nat sz + i - 8))
      \<and> X ! (if i < 3 then nat sz + i - 3 else i - 3) = choice (if i < 3 then nat sz + i - 3 else i - 3)
      \<and> X ! (nat sz + i - 8) = choice (nat sz + i - 8)
      \<and> Y ! i = label_of (X ! (if i < 3 then nat sz + i - 3 else i - 3)) (X ! (nat sz + i - 8)) (rand i)
      \<and> Y ! i = label_of (choice (if i < 3 then nat sz + i - 3 else i - 3))
                         (choice (nat sz + i - 8)) (rand i)
      \<and> nat sz - 8 \<le> nat sz + i - 8 \<and> nat sz + i - 8 < nat sz"
proof -
  let ?X = "map choice [0..<nat sz]"
  let ?k3 = "if i < 3 then nat sz + i - 3 else i - 3"
  let ?k8 = "nat sz + i - 8"
  let ?lab = "\<lambda>i. label_of (?X ! lag_index (nat sz) i 3) (?X ! lag_index (nat sz) i 8) (rand i)"
  let ?Y = "map ?lab [0..<nat sz]"
  have i: "i < nat sz" "i < length ?X" using assms by simp_all
  have g: "gen_data sz choice rand = Inr (?X, ?Y)"
    using assms(1) by (rule gen_data_ok)
  have l3: "lag_index (nat sz) i 3 = ?k3"
    by (simp add: lag_index_def)
  have l8: "lag_index (nat sz) i 8 = ?k8"
    using assms(2) by (simp add: lag_index_def)
  have g3: "np_get ?X (int i - 3) = Inr (?X ! lag_index (nat sz) i 3)"
    using np_get_lag [of 3 ?X i] assms i by (simp del: nth_map)
  have g8: "np_get ?X (int i - 8) = Inr (?X ! lag_index (nat sz) i 8)"
    using np_get_lag [of 8 ?X i] assms i by (simp del: nth_map)
  have y: "?Y ! i = ?lab i" using i(1) by (rule nth_map_upt0)
  have b: "nat sz - 8 \<le> ?k8" "?k8 < nat sz" using assms by simp_all
  have k3: "?k3 < nat sz" using assms by (cases "i < 3") auto
  have c3: "?X ! ?k3 = choice ?k3" using k3 by (rule nth_map_upt0)
  have c8: "?X ! ?k8 = choice ?k8" using b(2) by (rule nth_map_upt0)
  have yc: "?Y ! i = label_of (choice ?k3) (choice ?k8) (rand i)"
    unfolding y l3 l8 c3 c8 ..
  have len: "length ?X = nat sz" by simp
  have "gen_data sz choice rand = Inr (?X, ?Y) \<and> ?X = map choice [0..<nat sz] \<and> length ?X = nat sz
      \<and> np_get ?X (int i - 3) = Inr (?X ! ?k3)
      \<and> np_get ?X (int i - 8) = Inr (?X ! ?k8)
      \<and> ?X ! ?k3 = choice ?k3
      \<and> ?X ! ?k8 = choice ?k8
      \<and> ?Y ! i = label_of (?X ! ?k3) (?X ! ?k8) (rand i)
      \<and> ?Y ! i = label_of (choice ?k3) (choice ?k8) (rand i)
      \<and> nat sz - 8 \<le> ?k8 \<and> ?k8 < nat sz"
    using g g3 g8 y b c3 c8 yc len unfolding l3 l8 by (intro conjI) (rule refl | assumption)+
  then show ?thesis by (intro exI)
qed

text \<open>
  At size 10 the label \<open>Y[2]\<close> is computed from the draws at the indices 9 and 4, and
  \<open>Y[0]\<close> from those at 7 and 2: changing only the bit drawn at index 7, in the tail
  of \<open>X\<close>, turns \<open>Y[0]\<close> from 0 into 1.
\<close>

theorem gen_data_wraps_at_start_witness:
  "(8::int) \<le> 10 \<and> (2::nat) < 8 \<and>
   (\<exists>X Y. gen_data 10 (draws_of [1, 0, 1, 1, 0, 1, 0, 0, 1, 1] 0)
                (draws_of [1 / 2, 3 / 4, 1 / 4, 9 / 10, 0, 1 / 3, 4 / 5, 3 / 5, 1 / 5, 1 / 8] 0) = Inr (X, Y)
      \<and> X = map (draws_of [1, 0, 1, 1, 0, 1, 0, 0, 1, 1] 0) [0..<nat 10] \<and> length X = nat 10
      \<and> np_get X (int 2 - 3) = Inr (X ! (if (2::nat) < 3 then nat 10 + 2 - 3 else 2 - 3))
      \<and> np_get X (int 2 - 8) = Inr (X ! (nat 10 + 2 - 8))
      \<and> X ! (if (2::nat) < 3 then nat 10 + 2 - 3 else 2 - 3)
          = draws_of [1, 0, 1, 1, 0, 1, 0, 0, 1, 1] 0 (if (2::nat) < 3 then nat 10 + 2 - 3 else 2 - 3)
      \<and> X ! (nat 10 + 2 - 8) = draws_of [1, 0, 1, 1, 0, 1, 0, 0, 1, 1] 0 (nat 10 + 2 - 8)
      \<and> Y ! 2 = label_of (X ! (if (2::nat) < 3 then nat 10 + 2 - 3 else 2 - 3)) (X ! (nat 10 + 2 - 8))
            (draws_of [1 / 2, 3 / 4, 1 / 4, 9 / 10, 0, 1 / 3, 4 / 5, 3 / 5, 1 / 5, 1 / 8] 0 2)
      \<and> Y ! 2 = label_of (draws_of [1, 0, 1, 1, 0, 1, 0, 0, 1, 1] 0
                              (if (2::nat) < 3 then nat 10 + 2 - 3 else 2 - 3))
                          (draws_of [1, 0, 1, 1, 0, 1, 0, 0, 1, 1] 0 (nat 10 + 2 - 8))
                          (draws_of [1 / 2, 3 / 4, 1 / 4, 9 / 10, 0, 1 / 3, 4 / 5, 3 / 5, 1 / 5, 1 / 8] 0 2)
      \<and> nat 10 - 8 \<le> nat 10 + 2 - 8 \<and> nat 10 + 2 - 8 < nat 10)
   \<and> gen_data 10 (draws_of [1, 0, 1, 1, 0, 1, 0, 0, 1, 1] 0)
                (draws_of [1 / 2, 3 / 4, 1 / 4, 9 / 10, 0, 1 / 3, 4 / 5, 3 / 5, 1 / 5, 1 / 8] 0)
       = Inr ([1, 0, 1, 1, 0, 1, 0, 0, 1, 1], [0, 1, 1, 0, 1, 1, 0, 0, 1, 1])
   \<and> gen_data 10 (draws_of [1, 0, 1, 1, 0, 1, 0, 1, 1, 1] 0)
                (draws_of [1 / 2, 3 / 4, 1 / 4, 9 / 10, 0, 1 / 3, 4 / 5, 3 / 5, 1 / 5, 1 / 8] 0)
       = Inr ([1, 0, 1, 1, 0, 1, 0, 1, 1, 1], [1, 1, 1, 0, 1, 1, 0, 0, 1, 1])"
proof -
  have h1: "(8::int) \<le> 10" by simp
  have h2: "(2::nat) < 8" by simp
  show ?thesis
    by (intro conjI h1 h2 gen_data_sample_wrap gen_data_sample_tail
        gen_data_wraps_at_start [OF h1 h2])
qed

text \<open>
  Claim C9, as the code has it: for raw arrays of equal length and positive
  \<^verbatim>\<open>batch_size\<close> and \<^verbatim>\<open>num_steps\<close>, position \<open>[r][c]\<close> of the \<open>x\<close> and of the \<open>y\<close> of the
  \<open>i\<close>-th yielded pair hold the int32 values of \<open>raw_x[j]\<close> and \<open>raw_y[j]\<close> for the same
  index \<open>j = (len(raw_x) // batch_size) * r + i * num_steps + c\<close>, which lies inside the
  raw arrays; they equal \<open>raw_x[j]\<close> and \<open>raw_y[j]\<close> whenever these fit in a signed 32-bit
  integer.
\<close>

theorem gen_batch_alignment:
  assumes "length raw_x = length raw_y" and "1 \<le> batch_size" and "1 \<le> num_steps"
  shows "\<exists>batches. gen_batch (raw_x, raw_y) batch_size num_steps = Inr batches
    \<and> length batches = nat (int (length raw_x) div batch_size div num_steps)
    \<and> (\<forall>i < length batches. \<forall>r < nat batch_size. \<forall>c < nat num_steps.
          raw_index (length raw_x) batch_size num_steps i r c < length raw_x
        \<and> fst (batches ! i) ! r ! c
            = astype_int32 (raw_x ! raw_index (length raw_x) batch_size num_steps i r c)
        \<and> snd (batches ! i) ! r ! c
            = astype_int32 (raw_y ! raw_index (length raw_x) batch_size num_steps i r c)
        \<and> (fits_int32 (raw_x ! raw_index (length raw_x) batch_size num_steps i r c) \<longrightarrow>
              sint (fst (batches ! i) ! r ! c)
                = raw_x ! raw_index (length raw_x) batch_size num_steps i r c)
        \<and> (fits_int32 (raw_y ! raw_index (length raw_x) batch_size num_steps i r c) \<longrightarrow>
              sint (snd (batches ! i) ! r ! c)
                = raw_y ! raw_index (length raw_x) batch_size num_steps i r c))"
proof -
  define e where "e = length raw_x div nat batch_size div nat num_steps"
  let ?f = "\<lambda>i. (columns (stacked raw_x (int (length raw_x) div batch_size) batch_size)
                        (int i * num_steps) ((int i + 1) * num_steps),
                  columns (stacked raw_y (int (length raw_y) div batch_size) batch_size)
                        (int i * num_steps) ((int i + 1) * num_steps))"
  have ey: "e = length raw_y div nat batch_size div nat num_steps" using assms(1) by (simp add: e_def)
  have g: "gen_batch (raw_x, raw_y) batch_size num_steps = Inr (map ?f [0..<e])"
    unfolding e_def using assms by (intro gen_batch_windows_nat) simp_all
  have len: "length (map ?f [0..<e]) = nat (int (length raw_x) div batch_size div num_steps)"
    using assms(2,3) by (simp add: e_def epoch_size_nat)
  have elem: "raw_index (length raw_x) batch_size num_steps i r c < length raw_x
        \<and> fst (map ?f [0..<e] ! i) ! r ! c
            = astype_int32 (raw_x ! raw_index (length raw_x) batch_size num_steps i r c)
        \<and> snd (map ?f [0..<e] ! i) ! r ! c
            = astype_int32 (raw_y ! raw_index (length raw_x) batch_size num_steps i r c)"
    if "i < e" "r < nat batch_size" "c < nat num_steps" for i r c
  proof -
    let ?j = "length raw_x div nat batch_size * r + i * nat num_steps + c"
    have j: "raw_index (length raw_x) batch_size num_steps i r c = ?j"
      using assms(2) by (simp add: raw_index_def partition_length_nat)
    have jy: "?j = length raw_y div nat batch_size * r + i * nat num_steps + c"
      using assms(1) by simp
    have ix: "i < length raw_x div nat batch_size div nat num_steps" using that(1) by (simp add: e_def)
    have iy: "i < length raw_y div nat batch_size div nat num_steps" using that(1) by (simp add: ey)
    have a: "?j < length raw_x"
      using assms(2,3) ix that(2,3) by (rule window_elem(2))
    have b: "fst (?f i) ! r ! c = astype_int32 (raw_x ! ?j)"
      unfolding fst_conv using assms(2,3) ix that(2,3) by (rule window_elem(1))
    have c: "snd (?f i) ! r ! c = astype_int32 (raw_y ! ?j)"
      unfolding snd_conv jy using assms(2,3) iy that(2,3) by (rule window_elem(1))
    have n: "map ?f [0..<e] ! i = ?f i" using that(1) by simp
    show ?thesis unfolding j n using a b c by blast
  qed
  have "\<forall>i < length (map ?f [0..<e]). \<forall>r < nat batch_size. \<forall>c < nat num_steps.
          raw_index (length raw_x) batch_size num_steps i r c < length raw_x
        \<and> fst (map ?f [0..<e] ! i) ! r ! c
            = astype_int32 (raw_x ! raw_index (length raw_x) batch_size num_steps i r c)
        \<and> snd (map ?f [0..<e] ! i) ! r ! c
            = astype_int32 (raw_y ! raw_index (length raw_x) batch_size num_steps i r c)
        \<and> (fits_int32 (raw_x ! raw_index (length raw_x) batch_size num_steps i r c) \<longrightarrow>
              sint (fst (map ?f [0..<e] ! i) ! r ! c)
                = raw_x ! raw_index (length raw_x) batch_size num_steps i r c)
        \<and> (fits_int32 (raw_y ! raw_index (length raw_x) batch_size num_steps i r c) \<longrightarrow>
              sint (snd (map ?f [0..<e] ! i) ! r ! c)
                = raw_y ! raw_index (length raw_x) batch_size num_steps i r c)"
  proof (intro allI impI)
    fix i r c
    assume "i < length (map ?f [0..<e])" and rc: "r < nat batch_size" "c < nat num_steps"
    then have i: "i < e" by simp
    note el = elem [OF i rc]
    have sx: "sint (fst (map ?f [0..<e] ! i) ! r ! c)
                = raw_x ! raw_index (length raw_x) batch_size num_steps i r c"
      if "fits_int32 (raw_x ! raw_index (length raw_x) batch_size num_steps i r c)"
      using el that by (simp only: sint_astype_int32)
    have sy: "sint (snd (map ?f [0..<e] ! i) ! r ! c)
                = raw_y ! raw_index (length raw_x) batch_size num_steps i r c"
      if "fits_int32 (raw_y ! raw_index (length raw_x) batch_size num_steps i r c)"
      using el that by (simp only: sint_astype_int32)
    show "raw_index (length raw_x) batch_size num_steps i r c < length raw_x
        \<and> fst (map ?f [0..<e] ! i) ! r ! c
            = astype_int32 (raw_x ! raw_index (length raw_x) batch_size num_steps i r c)
        \<and> snd (map ?f [0..<e] ! i) ! r ! c
            = astype_int32 (raw_y ! raw_index (length raw_x) batch_size num_steps i r c)
        \<and> (fits_int32 (raw_x ! raw_index (length raw_x) batch_size num_steps i r c) \<longrightarrow>
              sint (fst (map ?f [0..<e] ! i) ! r ! c)
                = raw_x ! raw_index (length raw_x) batch_size num_steps i r c)
        \<and> (fits_int32 (raw_y ! raw_index (length raw_x) batch_size num_steps i r c) \<longrightarrow>
              sint (snd (map ?f [0..<e] ! i) ! r ! c)
                = raw_y ! raw_index (length raw_x) batch_size num_steps i r c)"
      using el sx sy by blast
  qed
  with g len show ?thesis by blast
qed

theorem gen_batch_alignment_witness:
  "length sample_x = length sample_y \<and> (1::int) \<le> 2 \<and> (1::int) \<le> 2 \<and>
   (\<exists>batches. gen_batch (sample_x, sample_y) 2 2 = Inr batches
    \<and> length batches = nat (int (length sample_x) div 2 div 2)
    \<and> (\<forall>i < length batches. \<forall>r < nat 2. \<forall>c < nat 2.
          raw_index (length sample_x) 2 2 i r c < length sample_x
        \<and> fst (batches ! i) ! r ! c = astype_int32 (sample_x ! raw_index (length sample_x) 2 2 i r c)
        \<and> snd (batches ! i) ! r ! c = astype_int32 (sample_y ! raw_index (length sample_x) 2 2 i r c)
        \<and> (fits_int32 (sample_x ! raw_index (length sample_x) 2 2 i r c) \<longrightarrow>
              sint (fst (batches ! i) ! r ! c) = sample_x ! raw_index (length sample_x) 2 2 i r c)
        \<and> (fits_int32 (sample_y ! raw_index (length sample_x) 2 2 i r c) \<longrightarrow>
              sint (snd (batches ! i) ! r ! c) = sample_y ! raw_index (length sample_x) 2 2 i r c)))
   \<and> nat (int (length sample_x) div 2 div 2) = 2
   \<and> raw_index (length sample_x) 2 2 1 1 0 = 7
   \<and> fits_int32 (sample_x ! 7) \<and> fits_int32 (sample_y ! 7)"
proof -
  have h2: "(1::int) \<le> 2" by simp
  have n: "nat (int (length sample_x) div 2 div 2) = 2" by (simp add: sample_x_def)
  have j: "raw_index (length sample_x) 2 2 1 1 0 = 7" by (simp add: sample_x_def raw_index_def)
  have fx: "fits_int32 (sample_x ! 7)" by (simp add: sample_x_def fits_int32_def)
  have fy: "fits_int32 (sample_y ! 7)" by (simp add: sample_y_def fits_int32_def)
  show ?thesis
    by (intro conjI sample_lengths h2 n j fx fy gen_batch_alignment [OF sample_lengths h2 h2])
qed

text \<open>
  The raw value \<open>2147483648\<close> at index 0 arrives at position \<open>[0][0]\<close> of the first \<open>x\<close>
  as \<open>-2147483648\<close>.
\<close>

theorem gen_batch_int32_element_counterexample:
  "gen_batch ([2147483648, 1], [1, 0]) 1 2 = Inr [([[astype_int32 2147483648, 1]], [[1, 0]])]
   \<and> raw_index (length [2147483648, 1 :: int]) 1 2 0 0 0 = 0
   \<and> [2147483648, 1 :: int] ! 0 = 2147483648
   \<and> sint (astype_int32 2147483648) = - 2147483648"
  by (intro conjI) (code_simp+)

text \<open>
  Claim C10, as the code has it: for raw arrays of equal length, \<^verbatim>\<open>batch_size >= 1\<close>
  and \<^verbatim>\<open>num_steps\<close> other than 0, if \<^verbatim>\<open>batch_size > len(raw_x)\<close> or
  \<^verbatim>\<open>num_steps > len(raw_x) // batch_size\<close>, then \<^verbatim>\<open>gen_batch\<close> yields nothing and ends
  without an exception.
\<close>

theorem gen_batch_degenerate:
  assumes "length raw_x = length raw_y" and "1 \<le> batch_size" and "num_steps \<noteq> 0"
    and "batch_size > int (length raw_x) \<or> num_steps > int (length raw_x) div batch_size"
  shows "gen_batch (raw_x, raw_y) batch_size num_steps = Inr []"
proof -
  define p where "p = int (length raw_x) div batch_size"
  have p0: "0 \<le> p" unfolding p_def using assms(2) by (simp add: pos_imp_zdiv_nonneg_iff)
  have "p div num_steps = 0"
  proof (cases "batch_size > int (length raw_x)")
    case True
    then have "p = 0" unfolding p_def by (simp add: div_pos_pos_trivial)
    then show ?thesis by simp
  next
    case False
    with assms(4) have "p < num_steps" by (simp add: p_def)
    with p0 show ?thesis by (simp add: div_pos_pos_trivial)
  qed
  then have e: "nat (int (length raw_x) div batch_size div num_steps) = 0"
    by (simp add: p_def)
  have "gen_batch (raw_x, raw_y) batch_size num_steps =
    Inr (map (\<lambda>i. (columns (stacked raw_x (int (length raw_x) div batch_size) batch_size)
                        (int i * num_steps) ((int i + 1) * num_steps),
                    columns (stacked raw_y (int (length raw_x) div batch_size) batch_size)
                        (int i * num_steps) ((int i + 1) * num_steps)))
             [0..<nat (int (length raw_x) div batch_size div num_steps)])"
    using assms(1,2,3) by (intro gen_batch_ok) simp_all
  then show ?thesis unfolding e by simp
qed

theorem gen_batch_degenerate_witness:
  "length [1, 0, 1 :: int] = length [0, 1, 1 :: int] \<and> (1::int) \<le> 4 \<and> (2::int) \<noteq> 0
   \<and> ((4::int) > int (length [1, 0, 1 :: int]) \<or> (2::int) > int (length [1, 0, 1 :: int]) div 4)
   \<and> gen_batch ([1, 0, 1], [0, 1, 1]) 4 2 = Inr []"
proof -
  have h1: "length [1, 0, 1 :: int] = length [0, 1, 1 :: int]" by simp
  have h2: "(1::int) \<le> 4" by simp
  have h3: "(2::int) \<noteq> 0" by simp
  have h4: "(4::int) > int (length [1, 0, 1 :: int]) \<or> (2::int) > int (length [1, 0, 1 :: int]) div 4"
    by simp
  show ?thesis
    by (intro conjI h1 h2 h3 h4 gen_batch_degenerate [OF h1 h2 h3 h4])
qed

text \<open>
  With \<^verbatim>\<open>batch_size = 3\<close> larger than the two raw elements and \<^verbatim>\<open>num_steps = 0\<close>, the
  division \<^verbatim>\<open>batch_partition_length // num_steps\<close> raises \<^verbatim>\<open>ZeroDivisionError\<close>.
\<close>

theorem gen_batch_zero_steps_counterexample:
  "(3::int) > int (length [1, 0 :: int])
   \<and> gen_batch ([1, 0], [0, 1]) 3 0 = Inl ZeroDivisionError"
  by (intro conjI) (code_simp+)

end
